theory Spec2Isabelle
  imports Main "HOL-Library.Word"
begin

unbundle bit_operations_syntax

section \<open>The data of huffmania/main.c\<close>

text \<open>
  The program keeps three fixed-size structures: the frequency tree \<open>FreqTree\<close>, the
  packed code table \<open>EncodedTable\<close> and the bit stream \<open>Stream\<close>. Arrays are lists; the
  array extents of the C declarations are the constants below, and an access outside an
  extent (undefined behaviour in C) is the value \<open>Inl OutOfBounds\<close>.

  \<open>size_t\<close> values are natural numbers below \<open>SIZE_MOD\<close> (a 64-bit \<open>size_t\<close>), with the
  wrap-around written out; \<open>uint32_t\<close> values are reduced modulo \<open>UINT32_MOD\<close>;
  \<open>uint8_t\<close> is \<open>8 word\<close>.
\<close>

type_synonym u8 = "8 word"

datatype fault = OutOfBounds

definition TOKEN_SIZE :: nat where
  "TOKEN_SIZE = 256"

definition SIZE_MOD :: nat where
  "SIZE_MOD = 2 ^ 64"

definition UINT32_MOD :: nat where
  "UINT32_MOD = 2 ^ 32"

definition INVALID_TOKEN :: nat where
  "INVALID_TOKEN = SIZE_MOD - 1"

definition MAX_ENCODING_TABLE_BITS :: nat where
  "MAX_ENCODING_TABLE_BITS = (TOKEN_SIZE + 1) * TOKEN_SIZE - 1"

definition MAX_ENCODING_TABLE_BYTES :: nat where
  "MAX_ENCODING_TABLE_BYTES = (MAX_ENCODING_TABLE_BITS + 7) div 8"

definition FREQ_TREE_MAX_NODES :: nat where
  "FREQ_TREE_MAX_NODES = TOKEN_SIZE * 2 - 1"

definition STREAM_BUFFER_BYTES :: nat where
  "STREAM_BUFFER_BYTES = 8192"

record FreqTree =
  m_count :: "nat list"
  m_left :: "nat list"
  m_right :: "nat list"
  m_top :: nat

record EncodedTable =
  m_packedData :: "u8 list"
  m_offset :: "nat list"
  m_bitcount :: "nat list"
  m_currentOffset :: nat

text \<open>The stream's cursor is \<open>m_offset\<close> in the source; the table owns that name here.\<close>

record Stream =
  m_buffer :: "u8 list"
  m_offset_s :: nat

section \<open>Frequency tree\<close>

definition freq_tree_init :: "FreqTree \<Rightarrow> FreqTree" where
  "freq_tree_init t =
     t\<lparr>m_count := replicate FREQ_TREE_MAX_NODES 0,
       m_left := replicate FREQ_TREE_MAX_NODES INVALID_TOKEN,
       m_right := replicate FREQ_TREE_MAX_NODES INVALID_TOKEN,
       m_top := FREQ_TREE_MAX_NODES\<rparr>"

text \<open>
  \<open>freq_tree_accumulate\<close> indexes \<open>m_count\<close> with a plain \<open>char\<close>. Whether \<open>char\<close> is
  signed is the compiler's choice, so it is the parameter \<open>char_signed\<close>: with a signed
  \<open>char\<close> a byte from 0x80 on is a negative index. The loop index is a \<open>uint32_t\<close>, so
  the loop only ends for \<open>len\<close> below \<open>UINT32_MOD\<close>; beyond that it reads past the data.
\<close>

fun accumulate_loop :: "bool \<Rightarrow> FreqTree \<Rightarrow> u8 list \<Rightarrow> fault + FreqTree" where
  "accumulate_loop char_signed t [] = Inr t"
| "accumulate_loop char_signed t (c # pData) =
     (if char_signed \<and> 128 \<le> unat c then Inl OutOfBounds
      else accumulate_loop char_signed
             (t\<lparr>m_count := (m_count t)[unat c := (m_count t ! unat c + 1) mod SIZE_MOD]\<rparr>)
             pData)"

definition freq_tree_accumulate :: "bool \<Rightarrow> FreqTree \<Rightarrow> u8 list \<Rightarrow> fault + FreqTree" where
  "freq_tree_accumulate char_signed t pData =
     (if UINT32_MOD \<le> length pData then Inl OutOfBounds
      else accumulate_loop char_signed t pData)"

section \<open>Tree construction\<close>

text \<open>
  The scan of \<open>get_smallest_huffman\<close>: a \<open>for\<close> loop over \<open>0 ..< scan_size\<close> carrying
  \<open>(small_val, small_ind)\<close>. The source's (commented-out) assertion
  \<open>scan_size \<le> FREQ_TREE_MAX_NODES\<close> is what keeps the reads inside \<open>m_count\<close>;
  \<open>generate_huffman\<close> below never calls it with more.
\<close>

definition scan_step :: "FreqTree \<Rightarrow> nat \<Rightarrow> nat \<times> nat \<Rightarrow> nat \<times> nat" where
  "scan_step t i acc =
     (case acc of (small_val, small_ind) \<Rightarrow>
        (let val = m_count t ! i in
         if val \<noteq> 0 \<and> val < small_val then (val, i) else (small_val, small_ind)))"

definition get_smallest_huffman :: "FreqTree \<Rightarrow> nat \<Rightarrow> nat" where
  "get_smallest_huffman t scan_size =
     snd (fold (scan_step t) [0..<scan_size] (INVALID_TOKEN, INVALID_TOKEN))"

definition hide_node :: "FreqTree \<Rightarrow> nat \<Rightarrow> FreqTree" where
  "hide_node t ind = t\<lparr>m_count := (m_count t)[ind := 0]\<rparr>"

definition combine_nodes :: "FreqTree \<Rightarrow> nat \<Rightarrow> nat \<Rightarrow> nat \<Rightarrow> nat \<Rightarrow> nat \<Rightarrow> FreqTree" where
  "combine_nodes t new_index val1 val2 ind1 ind2 =
     t\<lparr>m_count := (m_count t)[new_index := (val1 + val2) mod SIZE_MOD],
       m_left := (m_left t)[new_index := ind1],
       m_right := (m_right t)[new_index := ind2]\<rparr>"

text \<open>
  The \<open>while (1)\<close> loop of \<open>generate_huffman\<close>, returning the tree and \<open>new_index\<close> at the
  \<open>break\<close>. Writing node \<open>new_index\<close> outside the arrays is the fault.
\<close>

function generate_huffman_loop :: "FreqTree \<Rightarrow> nat \<Rightarrow> fault + (FreqTree \<times> nat)" where
  "generate_huffman_loop t new_index =
     (let ind1 = get_smallest_huffman t new_index in
      if ind1 = INVALID_TOKEN then Inr (t, new_index)
      else
        let val1 = m_count t ! ind1;
            t1 = hide_node t ind1;
            ind2 = get_smallest_huffman t1 new_index in
        if ind2 = INVALID_TOKEN then Inr (t1, new_index)
        else
          let val2 = m_count t1 ! ind2;
              t2 = hide_node t1 ind2 in
          if FREQ_TREE_MAX_NODES \<le> new_index then Inl OutOfBounds
          else generate_huffman_loop (combine_nodes t2 new_index val1 val2 ind1 ind2)
                 (new_index + 1))"
  by pat_completeness auto
termination
  by (relation "measure (\<lambda>(t, new_index). FREQ_TREE_MAX_NODES - new_index)") auto

declare generate_huffman_loop.simps [simp del]

definition generate_huffman :: "FreqTree \<Rightarrow> fault + FreqTree" where
  "generate_huffman t =
     (case generate_huffman_loop t TOKEN_SIZE of
        Inl f \<Rightarrow> Inl f
      | Inr (t', new_index) \<Rightarrow> Inr (t'\<lparr>m_top := new_index - 1\<rparr>))"

section \<open>Code table\<close>

definition encoded_table_init :: "EncodedTable \<Rightarrow> EncodedTable" where
  "encoded_table_init pTable =
     pTable\<lparr>m_offset := replicate TOKEN_SIZE 0,
            m_bitcount := replicate TOKEN_SIZE 0,
            m_currentOffset := 0\<rparr>"

definition set_encoded_bit :: "EncodedTable \<Rightarrow> nat \<Rightarrow> u8 \<Rightarrow> fault + EncodedTable" where
  "set_encoded_bit pTable bit_offset v =
     (if MAX_ENCODING_TABLE_BYTES \<le> bit_offset div 8 then Inl OutOfBounds
      else Inr (pTable\<lparr>m_packedData :=
                  (m_packedData pTable)[bit_offset div 8 :=
                     (m_packedData pTable ! (bit_offset div 8))
                       OR push_bit (7 - bit_offset mod 8) v]\<rparr>))"

definition read_encoded_bit :: "EncodedTable \<Rightarrow> nat \<Rightarrow> fault + u8" where
  "read_encoded_bit pTable bit_offset =
     (if MAX_ENCODING_TABLE_BYTES \<le> bit_offset div 8 then Inl OutOfBounds
      else Inr (drop_bit (7 - bit_offset mod 8) (m_packedData pTable ! (bit_offset div 8)) AND 1))"

text \<open>
  The \<open>BitChain\<close> kept on the C stack is the list of its \<open>m_value\<close>s, the innermost
  (deepest) link first. \<open>write_chain\<close> is the loop \<open>while (pChain)\<close> of a leaf.
\<close>

fun write_chain :: "EncodedTable \<Rightarrow> nat \<Rightarrow> u8 list \<Rightarrow> fault + EncodedTable" where
  "write_chain pEnc write_offset [] = Inr pEnc"
| "write_chain pEnc write_offset (v # pParent) =
     (let write_offset' = (write_offset + SIZE_MOD - 1) mod SIZE_MOD in
      case set_encoded_bit pEnc write_offset' v of
        Inl f \<Rightarrow> Inl f
      | Inr pEnc' \<Rightarrow> write_chain pEnc' write_offset' pParent)"

definition visit_leaf :: "EncodedTable \<Rightarrow> nat \<Rightarrow> u8 list \<Rightarrow> nat \<Rightarrow> u8 \<Rightarrow> fault + (EncodedTable \<times> nat)" where
  "visit_leaf pEnc tp pChain bitcount onlyCount =
     (if TOKEN_SIZE \<le> tp then Inl OutOfBounds
      else if onlyCount \<noteq> 0 then
        Inr (pEnc\<lparr>m_bitcount := (m_bitcount pEnc)[tp := bitcount]\<rparr>, bitcount)
      else
        let pEnc1 = pEnc\<lparr>m_offset := (m_offset pEnc)[tp := m_currentOffset pEnc]\<rparr>;
            pEnc2 = pEnc1\<lparr>m_currentOffset := (m_currentOffset pEnc1 + bitcount) mod SIZE_MOD\<rparr>
        in case write_chain pEnc2 (m_currentOffset pEnc2) pChain of
             Inl f \<Rightarrow> Inl f
           | Inr pEnc3 \<Rightarrow> Inr (pEnc3, bitcount))"

text \<open>
  \<open>freq_tree_traverse\<close> recurses along the child links with nothing that bounds the
  depth, so on links that form a cycle it does not return: the value \<open>None\<close>.
\<close>

partial_function (option) freq_tree_traverse ::
  "EncodedTable \<Rightarrow> FreqTree \<Rightarrow> nat \<Rightarrow> u8 list \<Rightarrow> nat \<Rightarrow> u8 \<Rightarrow> (fault + (EncodedTable \<times> nat)) option" where
  "freq_tree_traverse pEnc pFreqTree tp pChain bitcount onlyCount =
     (if FREQ_TREE_MAX_NODES \<le> tp then Some (Inl OutOfBounds)
      else if m_left pFreqTree ! tp = INVALID_TOKEN then
        Some (visit_leaf pEnc tp pChain bitcount onlyCount)
      else
        Option.bind
          (freq_tree_traverse pEnc pFreqTree (m_left pFreqTree ! tp) (0 # pChain)
             ((bitcount + 1) mod SIZE_MOD) onlyCount)
          (\<lambda>r1. case r1 of
             Inl f \<Rightarrow> Some (Inl f)
           | Inr (pEnc1, totalsize1) \<Rightarrow>
               Option.bind
                 (freq_tree_traverse pEnc1 pFreqTree (m_right pFreqTree ! tp) (1 # pChain)
                    ((bitcount + 1) mod SIZE_MOD) onlyCount)
                 (\<lambda>r2. case r2 of
                    Inl f \<Rightarrow> Some (Inl f)
                  | Inr (pEnc2, totalsize2) \<Rightarrow>
                      Some (Inr (pEnc2, (totalsize1 + totalsize2) mod SIZE_MOD)))))"

declare freq_tree_traverse.simps [code]

text \<open>
  \<open>create_encodings\<close> has no \<open>return\<close>; what it computes is the table, and what it prints
  is \<open>total_bitcount\<close>, the value of its first traversal. Both are the result here.
\<close>

definition create_encodings :: "EncodedTable \<Rightarrow> FreqTree \<Rightarrow> (fault + (EncodedTable \<times> nat)) option" where
  "create_encodings pEnc pFreqTree =
     (let pEnc0 = encoded_table_init pEnc in
      Option.bind (freq_tree_traverse pEnc0 pFreqTree (m_top pFreqTree) [] 0 0)
        (\<lambda>r1. case r1 of
           Inl f \<Rightarrow> Some (Inl f)
         | Inr (pEnc1, total_bitcount) \<Rightarrow>
             Option.bind (freq_tree_traverse pEnc1 pFreqTree (m_top pFreqTree) [] 0 1)
               (\<lambda>r2. case r2 of
                  Inl f \<Rightarrow> Some (Inl f)
                | Inr (pEnc2, _) \<Rightarrow> Some (Inr (pEnc2, total_bitcount)))))"

section \<open>Bit stream\<close>

definition stream_reset :: "Stream \<Rightarrow> Stream" where
  "stream_reset pStream = pStream\<lparr>m_offset_s := 0\<rparr>"

definition stream_write_bit :: "Stream \<Rightarrow> u8 \<Rightarrow> fault + Stream" where
  "stream_write_bit pStream v =
     (if STREAM_BUFFER_BYTES \<le> m_offset_s pStream div 8 then Inl OutOfBounds
      else Inr (pStream\<lparr>m_buffer :=
                  (m_buffer pStream)[m_offset_s pStream div 8 :=
                     (m_buffer pStream ! (m_offset_s pStream div 8))
                       OR push_bit (7 - m_offset_s pStream mod 8) v],
                  m_offset_s := m_offset_s pStream + 1\<rparr>))"

definition stream_read_bit :: "Stream \<Rightarrow> fault + (u8 \<times> Stream)" where
  "stream_read_bit pStream =
     (if STREAM_BUFFER_BYTES \<le> m_offset_s pStream div 8 then Inl OutOfBounds
      else Inr (drop_bit (7 - m_offset_s pStream mod 8)
                  (m_buffer pStream ! (m_offset_s pStream div 8)) AND 1,
                pStream\<lparr>m_offset_s := m_offset_s pStream + 1\<rparr>))"

section \<open>Encoding and decoding\<close>

text \<open>
  The inner loop of \<open>stream_encode\<close>, \<open>while (startBit != endBit)\<close> on \<open>uint32_t\<close>
  cursors: it copies table bits to the stream until the cursors meet, and walks out of
  the packed table when they cannot meet inside it.
\<close>

function encode_token :: "Stream \<Rightarrow> EncodedTable \<Rightarrow> nat \<Rightarrow> nat \<Rightarrow> fault + Stream" where
  "encode_token pStream pEnc startBit endBit =
     (if startBit = endBit then Inr pStream
      else case read_encoded_bit pEnc startBit of
             Inl f \<Rightarrow> Inl f
           | Inr b \<Rightarrow>
               (case stream_write_bit pStream b of
                  Inl f \<Rightarrow> Inl f
                | Inr pStream' \<Rightarrow>
                    encode_token pStream' pEnc ((startBit + 1) mod UINT32_MOD) endBit))"
  by pat_completeness auto
termination
  by (relation "measure (\<lambda>(pStream, pEnc, startBit, endBit). MAX_ENCODING_TABLE_BYTES * 8 - startBit)")
     (auto simp: read_encoded_bit_def MAX_ENCODING_TABLE_BYTES_def MAX_ENCODING_TABLE_BITS_def
        TOKEN_SIZE_def UINT32_MOD_def split: if_splits)

declare encode_token.simps [simp del]

fun encode_loop :: "Stream \<Rightarrow> u8 list \<Rightarrow> EncodedTable \<Rightarrow> fault + Stream" where
  "encode_loop pStream [] pEnc = Inr pStream"
| "encode_loop pStream (c # pData) pEnc =
     (let org = unat c;
          startBit = m_offset pEnc ! org mod UINT32_MOD;
          endBit = (startBit + m_bitcount pEnc ! org) mod UINT32_MOD
      in case encode_token pStream pEnc startBit endBit of
           Inl f \<Rightarrow> Inl f
         | Inr pStream' \<Rightarrow> encode_loop pStream' pData pEnc)"

definition stream_encode :: "Stream \<Rightarrow> u8 list \<Rightarrow> EncodedTable \<Rightarrow> fault + Stream" where
  "stream_encode pStream pData pEnc =
     (if UINT32_MOD \<le> length pData then Inl OutOfBounds
      else encode_loop pStream pData pEnc)"

text \<open>
  The \<open>do ... while\<close> of \<open>stream_decode\<close>: one bit is read and one link followed before
  the leaf test, on a \<open>uint32_t\<close> node index. The result is the node the loop stops at.
\<close>

function decode_token :: "Stream \<Rightarrow> FreqTree \<Rightarrow> nat \<Rightarrow> fault + (nat \<times> Stream)" where
  "decode_token pStream pFreqTree current =
     (case stream_read_bit pStream of
        Inl f \<Rightarrow> Inl f
      | Inr (b, pStream') \<Rightarrow>
          if FREQ_TREE_MAX_NODES \<le> current then Inl OutOfBounds
          else
            let current' = (if b \<noteq> 0 then m_right pFreqTree ! current
                            else m_left pFreqTree ! current) mod UINT32_MOD in
            if FREQ_TREE_MAX_NODES \<le> current' then Inl OutOfBounds
            else if m_left pFreqTree ! current' \<noteq> INVALID_TOKEN
              then decode_token pStream' pFreqTree current'
              else Inr (current', pStream'))"
  by pat_completeness auto
termination
  by (relation "measure (\<lambda>(pStream, pFreqTree, current). STREAM_BUFFER_BYTES * 8 - m_offset_s pStream)")
     (auto simp: stream_read_bit_def STREAM_BUFFER_BYTES_def split: if_splits)

declare decode_token.simps [simp del]

lemma decode_token_advances:
  "decode_token pStream pFreqTree current = Inr (tok, pStream') \<Longrightarrow>
     m_offset_s pStream < m_offset_s pStream' \<and> m_offset_s pStream' \<le> STREAM_BUFFER_BYTES * 8"
proof (induction pStream pFreqTree current rule: decode_token.induct)
  case (1 pStream pFreqTree current)
  from "1.prems" obtain b s1 where rd: "stream_read_bit pStream = Inr (b, s1)"
    by (subst (asm) decode_token.simps) (auto split: sum.splits)
  then have off: "m_offset_s s1 = m_offset_s pStream + 1" "m_offset_s pStream div 8 < STREAM_BUFFER_BYTES"
    by (auto simp: stream_read_bit_def split: if_splits)
  then have le: "m_offset_s s1 \<le> STREAM_BUFFER_BYTES * 8"
    by (simp add: STREAM_BUFFER_BYTES_def)
  define c' where "c' = (if b \<noteq> 0 then m_right pFreqTree ! current
                         else m_left pFreqTree ! current) mod UINT32_MOD"
  from "1.prems" rd have
    in1: "\<not> FREQ_TREE_MAX_NODES \<le> current" and in2: "\<not> FREQ_TREE_MAX_NODES \<le> c'" and
    rest: "(if m_left pFreqTree ! c' \<noteq> INVALID_TOKEN then decode_token s1 pFreqTree c'
            else Inr (c', s1)) = Inr (tok, pStream')"
    unfolding c'_def
    by - (subst (asm) decode_token.simps, simp add: Let_def split: if_splits)+
  show ?case
  proof (cases "m_left pFreqTree ! c' \<noteq> INVALID_TOKEN")
    case True
    with rest have "decode_token s1 pFreqTree c' = Inr (tok, pStream')" by simp
    then have "m_offset_s s1 < m_offset_s pStream' \<and> m_offset_s pStream' \<le> STREAM_BUFFER_BYTES * 8"
      using "1.IH" [OF rd refl in1 c'_def in2 True] by simp
    with off show ?thesis by simp
  next
    case False
    with rest have "pStream' = s1" by simp
    with off le show ?thesis by simp
  qed
qed

text \<open>
  The outer \<open>while (1)\<close>: every token is printed, and the loop is left after printing
  token 0. The printed tokens are the first component of the result, the second is the
  stream at the \<open>break\<close>, or the fault that ended the run.
\<close>

function stream_decode_loop :: "Stream \<Rightarrow> FreqTree \<Rightarrow> nat list \<Rightarrow> nat list \<times> (fault + Stream)" where
  "stream_decode_loop pStream pFreqTree printed =
     (case decode_token pStream pFreqTree (m_top pFreqTree mod UINT32_MOD) of
        Inl f \<Rightarrow> (printed, Inl f)
      | Inr (current, pStream') \<Rightarrow>
          if current = 0 then (printed @ [current], Inr pStream')
          else stream_decode_loop pStream' pFreqTree (printed @ [current]))"
  by pat_completeness auto
termination
  by (relation "measure (\<lambda>(pStream, pFreqTree, printed). STREAM_BUFFER_BYTES * 8 - m_offset_s pStream)")
     (auto dest!: decode_token_advances)

declare stream_decode_loop.simps [simp del]

definition stream_decode :: "Stream \<Rightarrow> FreqTree \<Rightarrow> nat list \<times> (fault + Stream)" where
  "stream_decode pStream pFreqTree = stream_decode_loop pStream pFreqTree []"

section \<open>Bits in a byte array\<close>

text \<open>
  Both the packed table and the stream address bit \<open>pos\<close> as bit \<open>7 - pos mod 8\<close> of byte
  \<open>pos div 8\<close> (most significant bit first). \<open>bit_at\<close> names that bit; reading returns
  it, and writing ORs a value into it.
\<close>

lemmas consts_defs = TOKEN_SIZE_def SIZE_MOD_def UINT32_MOD_def INVALID_TOKEN_def
  MAX_ENCODING_TABLE_BITS_def MAX_ENCODING_TABLE_BYTES_def FREQ_TREE_MAX_NODES_def
  STREAM_BUFFER_BYTES_def

definition bit_at :: "u8 list \<Rightarrow> nat \<Rightarrow> bool" where
  "bit_at bytes pos = bit (bytes ! (pos div 8)) (7 - pos mod 8)"

lemma read_bit_word: "drop_bit n (w :: u8) AND 1 = of_bool (bit w n)"
  by (simp add: and_one_eq bit_iff_odd_drop_bit odd_iff_mod_2_eq_one even_iff_mod_2_eq_zero)

lemma or_push_bit_word:
  "n < 8 \<Longrightarrow> bit ((w :: u8) OR push_bit n (of_bool b)) m = (bit w m \<or> (m = n \<and> b))"
  by (auto simp: bit_simps)

lemma bit_at_update:
  assumes "pos div 8 < length bytes"
  shows "bit_at (bytes[pos div 8 := bytes ! (pos div 8) OR push_bit (7 - pos mod 8) (of_bool b)]) q
         = (bit_at bytes q \<or> (q = pos \<and> b))"
proof (cases "q div 8 = pos div 8")
  case True
  have "(7 - q mod 8 = 7 - pos mod 8) = (q = pos)"
  proof -
    have "q mod 8 < 8" "pos mod 8 < 8" by simp_all
    then have "(7 - q mod 8 = 7 - pos mod 8) = (q mod 8 = pos mod 8)" by arith
    also have "\<dots> = (q = pos)" using True by (metis div_mult_mod_eq)
    finally show ?thesis .
  qed
  with True assms show ?thesis
    by (simp add: bit_at_def or_push_bit_word)
next
  case False
  then have "q \<noteq> pos" by auto
  with False assms show ?thesis by (simp add: bit_at_def)
qed

section \<open>The minimum scan\<close>


text \<open>A count the scan can pick: nonzero and below its starting value \<open>INVALID_TOKEN\<close>.\<close>
definition visible :: "FreqTree \<Rightarrow> nat \<Rightarrow> bool" where
  "visible t j \<longleftrightarrow> m_count t ! j \<noteq> 0 \<and> m_count t ! j < INVALID_TOKEN"

definition scan_result :: "FreqTree \<Rightarrow> nat \<Rightarrow> nat \<times> nat" where
  "scan_result t n = fold (scan_step t) [0..<n] (INVALID_TOKEN, INVALID_TOKEN)"

lemma scan_result_Suc: "scan_result t (Suc n) = scan_step t n (scan_result t n)"
  by (simp add: scan_result_def)

lemma scan_result_inv:
  assumes "n \<le> INVALID_TOKEN"
  shows "(scan_result t n = (INVALID_TOKEN, INVALID_TOKEN) \<and> (\<forall>j<n. \<not> visible t j)) \<or>
         (\<exists>i. scan_result t n = (m_count t ! i, i) \<and> i < n \<and> visible t i \<and>
              (\<forall>j<n. visible t j \<longrightarrow> m_count t ! i \<le> m_count t ! j) \<and>
              (\<forall>j<i. visible t j \<longrightarrow> m_count t ! i < m_count t ! j))"
  using assms
proof (induction n)
  case 0
  then show ?case by (simp add: scan_result_def)
next
  case (Suc n)
  then have IH: "(scan_result t n = (INVALID_TOKEN, INVALID_TOKEN) \<and> (\<forall>j<n. \<not> visible t j)) \<or>
         (\<exists>i. scan_result t n = (m_count t ! i, i) \<and> i < n \<and> visible t i \<and>
              (\<forall>j<n. visible t j \<longrightarrow> m_count t ! i \<le> m_count t ! j) \<and>
              (\<forall>j<i. visible t j \<longrightarrow> m_count t ! i < m_count t ! j))"
    by simp
  from IH show ?case
  proof
    assume none: "scan_result t n = (INVALID_TOKEN, INVALID_TOKEN) \<and> (\<forall>j<n. \<not> visible t j)"
    show ?thesis
    proof (cases "visible t n")
      case True
      with none have "scan_result t (Suc n) = (m_count t ! n, n)"
        by (simp add: scan_result_Suc scan_step_def visible_def)
      moreover have "\<forall>j<Suc n. visible t j \<longrightarrow> m_count t ! n \<le> m_count t ! j"
        using none by (auto simp: less_Suc_eq)
      moreover have "\<forall>j<n. visible t j \<longrightarrow> m_count t ! n < m_count t ! j"
        using none by auto
      ultimately show ?thesis using True by blast
    next
      case False
      with none have "scan_result t (Suc n) = (INVALID_TOKEN, INVALID_TOKEN)"
        by (auto simp: scan_result_Suc scan_step_def visible_def)
      moreover have "\<forall>j<Suc n. \<not> visible t j"
        using none False by (auto simp: less_Suc_eq)
      ultimately show ?thesis by blast
    qed
  next
    assume "\<exists>i. scan_result t n = (m_count t ! i, i) \<and> i < n \<and> visible t i \<and>
              (\<forall>j<n. visible t j \<longrightarrow> m_count t ! i \<le> m_count t ! j) \<and>
              (\<forall>j<i. visible t j \<longrightarrow> m_count t ! i < m_count t ! j)"
    then obtain i where i: "scan_result t n = (m_count t ! i, i)" "i < n" "visible t i"
      "\<forall>j<n. visible t j \<longrightarrow> m_count t ! i \<le> m_count t ! j"
      "\<forall>j<i. visible t j \<longrightarrow> m_count t ! i < m_count t ! j"
      by blast
    show ?thesis
    proof (cases "m_count t ! n \<noteq> 0 \<and> m_count t ! n < m_count t ! i")
      case True
      then have vis: "visible t n" using i(3) by (auto simp: visible_def)
      from True i(1) have "scan_result t (Suc n) = (m_count t ! n, n)"
        by (simp add: scan_result_Suc scan_step_def)
      moreover have "\<forall>j<Suc n. visible t j \<longrightarrow> m_count t ! n \<le> m_count t ! j"
        using i(4) True by (fastforce simp: less_Suc_eq)
      moreover have "\<forall>j<n. visible t j \<longrightarrow> m_count t ! n < m_count t ! j"
        using i(4) True by (meson less_le_trans)
      ultimately show ?thesis using vis by blast
    next
      case False
      with i(1) have "scan_result t (Suc n) = (m_count t ! i, i)"
        by (auto simp: scan_result_Suc scan_step_def)
      moreover have "\<forall>j<Suc n. visible t j \<longrightarrow> m_count t ! i \<le> m_count t ! j"
        using i(4) False by (auto simp: less_Suc_eq visible_def)
      ultimately show ?thesis using i(2,3,5) by (meson less_SucI)
    qed
  qed
qed

lemma get_smallest_huffman_none:
  assumes "n \<le> INVALID_TOKEN"
  shows "(get_smallest_huffman t n = INVALID_TOKEN) = (\<forall>j<n. \<not> visible t j)"
  using scan_result_inv [OF assms, of t] assms
  by (auto simp: get_smallest_huffman_def scan_result_def [symmetric])

lemma get_smallest_huffman_some:
  assumes "n \<le> INVALID_TOKEN" "get_smallest_huffman t n \<noteq> INVALID_TOKEN"
  shows "get_smallest_huffman t n < n \<and> visible t (get_smallest_huffman t n) \<and>
         (\<forall>j<n. visible t j \<longrightarrow> m_count t ! get_smallest_huffman t n \<le> m_count t ! j) \<and>
         (\<forall>j<get_smallest_huffman t n. visible t j \<longrightarrow>
              m_count t ! get_smallest_huffman t n < m_count t ! j)"
  using scan_result_inv [OF assms(1), of t] assms
  by (auto simp: get_smallest_huffman_def scan_result_def [symmetric])

lemma get_smallest_huffman_eqI:
  assumes "n \<le> INVALID_TOKEN" "i < n" "visible t i"
    "\<forall>j<n. visible t j \<longrightarrow> m_count t ! i \<le> m_count t ! j"
    "\<forall>j<i. visible t j \<longrightarrow> m_count t ! i < m_count t ! j"
  shows "get_smallest_huffman t n = i"
proof -
  let ?g = "get_smallest_huffman t n"
  from assms(1-3) have "?g \<noteq> INVALID_TOKEN"
    by (auto simp: get_smallest_huffman_none)
  from get_smallest_huffman_some [OF assms(1) this]
  have g: "?g < n" "visible t ?g" "\<forall>j<n. visible t j \<longrightarrow> m_count t ! ?g \<le> m_count t ! j"
    "\<forall>j<?g. visible t j \<longrightarrow> m_count t ! ?g < m_count t ! j" by auto
  have eq: "m_count t ! ?g = m_count t ! i"
    using g(1,2,3) assms(2,3,4) by (meson le_antisym)
  show ?thesis
  proof (rule ccontr)
    assume "?g \<noteq> i"
    then consider "?g < i" | "i < ?g" by arith
    then show False
    proof cases
      case 1 with assms(5) g(2) eq show False by auto
    next
      case 2 with g(4) assms(3) eq show False by auto
    qed
  qed
qed

section \<open>The links as a binary tree\<close>


text \<open>
  The links \<open>m_left\<close>, \<open>m_right\<close> below a node read as a binary tree. \<open>tree_at L R i tr\<close>
  holds when node \<open>i\<close> is a leaf and \<open>tr\<close> is that leaf, or when \<open>i\<close> is an inner node
  whose children have smaller indices and carry the subtrees of \<open>tr\<close>.
\<close>

datatype htree = Leaf nat | Node htree htree

fun leaves :: "htree \<Rightarrow> nat list" where
  "leaves (Leaf k) = [k]"
| "leaves (Node l r) = leaves l @ leaves r"

inductive tree_at :: "nat list \<Rightarrow> nat list \<Rightarrow> nat \<Rightarrow> htree \<Rightarrow> bool" for L R where
  leaf: "i < FREQ_TREE_MAX_NODES \<Longrightarrow> L ! i = INVALID_TOKEN \<Longrightarrow> tree_at L R i (Leaf i)"
| node: "i < FREQ_TREE_MAX_NODES \<Longrightarrow> L ! i \<noteq> INVALID_TOKEN \<Longrightarrow> L ! i < i \<Longrightarrow> R ! i < i \<Longrightarrow>
         tree_at L R (L ! i) l \<Longrightarrow> tree_at L R (R ! i) r \<Longrightarrow> tree_at L R i (Node l r)"

definition tree_shape :: "FreqTree \<Rightarrow> bool" where
  "tree_shape t \<longleftrightarrow> length (m_count t) = FREQ_TREE_MAX_NODES \<and>
     length (m_left t) = FREQ_TREE_MAX_NODES \<and> length (m_right t) = FREQ_TREE_MAX_NODES"

definition has_tree :: "nat list \<Rightarrow> nat list \<Rightarrow> nat \<Rightarrow> bool" where
  "has_tree L R i \<longleftrightarrow>
     (\<exists>tr. tree_at L R i tr \<and> distinct (leaves tr) \<and> set (leaves tr) \<subseteq> {..<TOKEN_SIZE})"

definition leaf_set :: "nat list \<Rightarrow> nat list \<Rightarrow> nat \<Rightarrow> nat set" where
  "leaf_set L R i = {k. \<exists>tr. tree_at L R i tr \<and> k \<in> set (leaves tr)}"

lemma tree_at_det: "tree_at L R i tr \<Longrightarrow> tree_at L R i tr' \<Longrightarrow> tr = tr'"
proof (induction arbitrary: tr' rule: tree_at.induct)
  case (leaf i)
  then show ?case by (auto elim: tree_at.cases)
next
  case (node i l r)
  from node.prems node.hyps(2) obtain l' r' where
    "tr' = Node l' r'" "tree_at L R (L ! i) l'" "tree_at L R (R ! i) r'"
    by (auto elim: tree_at.cases)
  with node.IH show ?case by simp
qed

lemma tree_at_frame:
  "tree_at L R i tr \<Longrightarrow> \<forall>j\<le>i. L' ! j = L ! j \<and> R' ! j = R ! j \<Longrightarrow> tree_at L' R' i tr"
proof (induction rule: tree_at.induct)
  case (leaf i)
  then show ?case by (simp add: tree_at.leaf)
next
  case (node i l r)
  have "tree_at L' R' (L ! i) l" "tree_at L' R' (R ! i) r"
    using node.IH node.prems node.hyps(3,4) by auto
  moreover have "L' ! i = L ! i" "R' ! i = R ! i" using node.prems by auto
  ultimately show ?case using node.hyps(1-4) by (simp add: tree_at.node)
qed

lemma tree_at_update:
  assumes "i < n"
  shows "tree_at (L[n := a]) (R[n := b]) i tr = tree_at L R i tr"
proof
  assume "tree_at (L[n := a]) (R[n := b]) i tr"
  then show "tree_at L R i tr"
    by (rule tree_at_frame) (use assms in auto)
next
  assume "tree_at L R i tr"
  then show "tree_at (L[n := a]) (R[n := b]) i tr"
    by (rule tree_at_frame) (use assms in auto)
qed

lemma has_tree_update: "i < n \<Longrightarrow> has_tree (L[n := a]) (R[n := b]) i = has_tree L R i"
  by (simp add: has_tree_def tree_at_update)

lemma leaf_set_update: "i < n \<Longrightarrow> leaf_set (L[n := a]) (R[n := b]) i = leaf_set L R i"
  by (simp add: leaf_set_def tree_at_update)

lemma leaf_set_tree: "tree_at L R i tr \<Longrightarrow> leaf_set L R i = set (leaves tr)"
  by (auto simp: leaf_set_def dest: tree_at_det)

lemma has_tree_leaf:
  "i < TOKEN_SIZE \<Longrightarrow> L ! i = INVALID_TOKEN \<Longrightarrow> has_tree L R i"
  unfolding has_tree_def
  by (rule exI [of _ "Leaf i"]) (auto intro!: tree_at.leaf simp: consts_defs)

lemma leaf_set_leaf:
  "i < FREQ_TREE_MAX_NODES \<Longrightarrow> L ! i = INVALID_TOKEN \<Longrightarrow> leaf_set L R i = {i}"
  using leaf_set_tree [OF tree_at.leaf, of i L R] by simp

lemma has_tree_node:
  assumes "has_tree L R a" "has_tree L R b" "leaf_set L R a \<inter> leaf_set L R b = {}"
    "a < n" "b < n" "n < FREQ_TREE_MAX_NODES" "n < length L" "n < length R"
  shows "has_tree (L[n := a]) (R[n := b]) n \<and>
         leaf_set (L[n := a]) (R[n := b]) n = leaf_set L R a \<union> leaf_set L R b"
proof -
  from assms(1,2) obtain l r where
    l: "tree_at L R a l" "distinct (leaves l)" "set (leaves l) \<subseteq> {..<TOKEN_SIZE}" and
    r: "tree_at L R b r" "distinct (leaves r)" "set (leaves r) \<subseteq> {..<TOKEN_SIZE}"
    by (auto simp: has_tree_def)
  let ?L = "L[n := a]" and ?R = "R[n := b]"
  have "tree_at ?L ?R a l" "tree_at ?L ?R b r"
    using l(1) r(1) assms(4,5) by (simp_all add: tree_at_update)
  moreover have "?L ! n = a" "?R ! n = b" using assms(7,8) by simp_all
  moreover have "a \<noteq> INVALID_TOKEN" using assms(4,6) by (simp add: consts_defs)
  ultimately have t: "tree_at ?L ?R n (Node l r)"
    using assms(4,5,6) by (auto intro!: tree_at.node)
  have "set (leaves l) \<inter> set (leaves r) = {}"
    using assms(3) leaf_set_tree [OF l(1)] leaf_set_tree [OF r(1)] by simp
  with l r t have "has_tree ?L ?R n"
    unfolding has_tree_def by (intro exI [of _ "Node l r"]) auto
  moreover have "leaf_set ?L ?R n = leaf_set L R a \<union> leaf_set L R b"
    using leaf_set_tree [OF t] leaf_set_tree [OF l(1)] leaf_set_tree [OF r(1)] by simp
  ultimately show ?thesis by simp
qed

lemma hide_node_simps [simp]:
  "m_left (hide_node t i) = m_left t" "m_right (hide_node t i) = m_right t"
  "m_top (hide_node t i) = m_top t"
  by (simp_all add: hide_node_def)

lemma hide_node_count: "m_count (hide_node t i) = (m_count t)[i := 0]"
  by (simp add: hide_node_def)

lemma combine_nodes_simps [simp]:
  "m_left (combine_nodes t n v1 v2 a b) = (m_left t)[n := a]"
  "m_right (combine_nodes t n v1 v2 a b) = (m_right t)[n := b]"
  "m_top (combine_nodes t n v1 v2 a b) = m_top t"
  by (simp_all add: combine_nodes_def)

lemma combine_nodes_count:
  "m_count (combine_nodes t n v1 v2 a b) = (m_count t)[n := (v1 + v2) mod SIZE_MOD]"
  by (simp add: combine_nodes_def)

lemma tree_shape_hide [simp]: "tree_shape (hide_node t i) = tree_shape t"
  by (simp add: tree_shape_def hide_node_count)

lemma tree_shape_combine [simp]: "tree_shape (combine_nodes t n v1 v2 a b) = tree_shape t"
  by (simp add: tree_shape_def combine_nodes_count)

text \<open>The invariant of the loop of \<open>generate_huffman\<close> at its head.\<close>

definition gh_inv :: "FreqTree \<Rightarrow> nat \<Rightarrow> bool" where
  "gh_inv t n \<longleftrightarrow>
     tree_shape t \<and> TOKEN_SIZE \<le> n \<and> n \<le> FREQ_TREE_MAX_NODES \<and>
     (\<forall>i<TOKEN_SIZE. m_left t ! i = INVALID_TOKEN) \<and>
     (\<forall>i. n \<le> i \<and> i < FREQ_TREE_MAX_NODES \<longrightarrow> m_count t ! i = 0) \<and>
     card {i. i < n \<and> m_count t ! i \<noteq> 0} + n \<le> 2 * TOKEN_SIZE \<and>
     (\<forall>i<n. m_count t ! i \<noteq> 0 \<longrightarrow> has_tree (m_left t) (m_right t) i) \<and>
     (\<forall>i<n. \<forall>j<n. i \<noteq> j \<and> m_count t ! i \<noteq> 0 \<and> m_count t ! j \<noteq> 0 \<longrightarrow>
         leaf_set (m_left t) (m_right t) i \<inter> leaf_set (m_left t) (m_right t) j = {}) \<and>
     (TOKEN_SIZE < n \<longrightarrow> has_tree (m_left t) (m_right t) (n - 1) \<and>
         m_left t ! (n - 1) \<noteq> INVALID_TOKEN)"

lemma gh_inv_room:
  assumes "gh_inv t n" "a < n" "b < n" "a \<noteq> b" "m_count t ! a \<noteq> 0" "m_count t ! b \<noteq> 0"
  shows "n + 2 \<le> 2 * TOKEN_SIZE"
proof -
  let ?NZ = "{i. i < n \<and> m_count t ! i \<noteq> 0}"
  have "finite ?NZ" by simp
  moreover have "{a, b} \<subseteq> ?NZ" using assms by auto
  ultimately have "card {a, b} \<le> card ?NZ" by (rule card_mono)
  with assms(4) have "2 \<le> card ?NZ" by simp
  with assms(1) show ?thesis by (simp add: gh_inv_def)
qed

lemma gh_inv_step:
  assumes inv: "gh_inv t n" and ab: "a < n" "b < n" "a \<noteq> b"
    and nz: "m_count t ! a \<noteq> 0" "m_count t ! b \<noteq> 0"
  shows "gh_inv (combine_nodes (hide_node (hide_node t a) b) n v1 v2 a b) (Suc n)"
proof -
  let ?t = "combine_nodes (hide_node (hide_node t a) b) n v1 v2 a b"
  let ?L = "m_left t" and ?R = "m_right t" and ?C = "m_count t"
  let ?NZ = "{i. i < n \<and> ?C ! i \<noteq> 0}"
  from gh_inv_room [OF inv ab nz] have n: "n < FREQ_TREE_MAX_NODES"
    by (simp add: consts_defs)
  from inv have sh: "tree_shape t" and ge: "TOKEN_SIZE \<le> n"
    and lv: "\<forall>i<TOKEN_SIZE. ?L ! i = INVALID_TOKEN"
    and zero: "\<forall>i. n \<le> i \<and> i < FREQ_TREE_MAX_NODES \<longrightarrow> ?C ! i = 0"
    and cd: "card ?NZ + n \<le> 2 * TOKEN_SIZE"
    and tr: "\<forall>i<n. ?C ! i \<noteq> 0 \<longrightarrow> has_tree ?L ?R i"
    and dj: "\<forall>i<n. \<forall>j<n. i \<noteq> j \<and> ?C ! i \<noteq> 0 \<and> ?C ! j \<noteq> 0 \<longrightarrow>
               leaf_set ?L ?R i \<inter> leaf_set ?L ?R j = {}"
    by (simp_all add: gh_inv_def)
  from sh n have len: "n < length ?L" "n < length ?R" "n < length ?C"
    "length ?C = FREQ_TREE_MAX_NODES"
    by (simp_all add: tree_shape_def)
  have L': "m_left ?t = ?L[n := a]" and R': "m_right ?t = ?R[n := b]"
    and C': "m_count ?t = ?C[a := 0, b := 0, n := (v1 + v2) mod SIZE_MOD]"
    by (simp_all add: hide_node_count combine_nodes_count)
  have cnt: "\<And>i. i < FREQ_TREE_MAX_NODES \<Longrightarrow> m_count ?t ! i =
      (if i = n then (v1 + v2) mod SIZE_MOD else if i = a \<or> i = b then 0 else ?C ! i)"
    using len ab by (auto simp: C' nth_list_update)
  have node: "has_tree (?L[n := a]) (?R[n := b]) n \<and>
      leaf_set (?L[n := a]) (?R[n := b]) n = leaf_set ?L ?R a \<union> leaf_set ?L ?R b"
    using tr dj ab nz n len by (intro has_tree_node) auto
  have c1: "\<forall>i<TOKEN_SIZE. m_left ?t ! i = INVALID_TOKEN"
    using lv ge by (simp add: L')
  have c2: "\<forall>i. Suc n \<le> i \<and> i < FREQ_TREE_MAX_NODES \<longrightarrow> m_count ?t ! i = 0"
    using zero ab by (auto simp: cnt)
  have c3: "card {i. i < Suc n \<and> m_count ?t ! i \<noteq> 0} + Suc n \<le> 2 * TOKEN_SIZE"
  proof -
    have sub: "{i. i < Suc n \<and> m_count ?t ! i \<noteq> 0} \<subseteq> insert n (?NZ - {a, b})"
      using n by (auto simp: cnt less_Suc_eq split: if_splits)
    have "card (insert n (?NZ - {a, b})) \<le> Suc (card (?NZ - {a, b}))"
      by (simp add: card_insert_le_m1 card_insert_if)
    moreover have "card (?NZ - {a, b}) = card ?NZ - 2"
      using ab nz by (subst card_Diff_subset) auto
    moreover have "2 \<le> card ?NZ"
    proof -
      have "card {a, b} \<le> card ?NZ" using ab nz by (intro card_mono) auto
      with ab(3) show ?thesis by simp
    qed
    moreover have "card {i. i < Suc n \<and> m_count ?t ! i \<noteq> 0} \<le> card (insert n (?NZ - {a, b}))"
      using sub by (intro card_mono) auto
    ultimately show ?thesis using cd by linarith
  qed
  have c4: "\<forall>i<Suc n. m_count ?t ! i \<noteq> 0 \<longrightarrow> has_tree (m_left ?t) (m_right ?t) i"
  proof (intro allI impI)
    fix i assume i: "i < Suc n" "m_count ?t ! i \<noteq> 0"
    show "has_tree (m_left ?t) (m_right ?t) i"
    proof (cases "i = n")
      case True
      with node show ?thesis by (simp add: L' R')
    next
      case False
      with i n have "i < n" "?C ! i \<noteq> 0" by (auto simp: cnt split: if_splits)
      with tr show ?thesis by (simp add: L' R' has_tree_update)
    qed
  qed
  have ls: "\<And>i. i < Suc n \<Longrightarrow> m_count ?t ! i \<noteq> 0 \<Longrightarrow>
      (i = n \<and> leaf_set (m_left ?t) (m_right ?t) i = leaf_set ?L ?R a \<union> leaf_set ?L ?R b) \<or>
      (i < n \<and> i \<noteq> a \<and> i \<noteq> b \<and> ?C ! i \<noteq> 0 \<and>
         leaf_set (m_left ?t) (m_right ?t) i = leaf_set ?L ?R i)"
  proof -
    fix i assume i: "i < Suc n" "m_count ?t ! i \<noteq> 0"
    show "(i = n \<and> leaf_set (m_left ?t) (m_right ?t) i = leaf_set ?L ?R a \<union> leaf_set ?L ?R b) \<or>
      (i < n \<and> i \<noteq> a \<and> i \<noteq> b \<and> ?C ! i \<noteq> 0 \<and>
         leaf_set (m_left ?t) (m_right ?t) i = leaf_set ?L ?R i)"
    proof (cases "i = n")
      case True
      with node show ?thesis by (simp add: L' R')
    next
      case False
      with i n have "i < n" "i \<noteq> a" "i \<noteq> b" "?C ! i \<noteq> 0" by (auto simp: cnt split: if_splits)
      then show ?thesis by (simp add: L' R' leaf_set_update)
    qed
  qed
  have c5: "\<forall>i<Suc n. \<forall>j<Suc n. i \<noteq> j \<and> m_count ?t ! i \<noteq> 0 \<and> m_count ?t ! j \<noteq> 0 \<longrightarrow>
      leaf_set (m_left ?t) (m_right ?t) i \<inter> leaf_set (m_left ?t) (m_right ?t) j = {}"
  proof (intro allI impI)
    fix i j assume i: "i < Suc n" and j: "j < Suc n"
      and ij: "i \<noteq> j \<and> m_count ?t ! i \<noteq> 0 \<and> m_count ?t ! j \<noteq> 0"
    from ij have nzi: "m_count ?t ! i \<noteq> 0" and nzj: "m_count ?t ! j \<noteq> 0" and ne: "i \<noteq> j"
      by auto
    have dj': "\<And>x y. x < n \<Longrightarrow> y < n \<Longrightarrow> x \<noteq> y \<Longrightarrow> ?C ! x \<noteq> 0 \<Longrightarrow> ?C ! y \<noteq> 0 \<Longrightarrow>
        leaf_set ?L ?R x \<inter> leaf_set ?L ?R y = {}"
      using dj by blast
    from ls [OF i nzi] ls [OF j nzj]
    show "leaf_set (m_left ?t) (m_right ?t) i \<inter> leaf_set (m_left ?t) (m_right ?t) j = {}"
    proof (elim disjE conjE)
      assume "i = n" "j = n"
      with ne show ?thesis by simp
    next
      assume a: "i = n" "leaf_set (m_left ?t) (m_right ?t) i = leaf_set ?L ?R a \<union> leaf_set ?L ?R b"
        "j < n" "j \<noteq> a" "j \<noteq> b" "?C ! j \<noteq> 0"
        "leaf_set (m_left ?t) (m_right ?t) j = leaf_set ?L ?R j"
      have "leaf_set ?L ?R a \<inter> leaf_set ?L ?R j = {}" "leaf_set ?L ?R b \<inter> leaf_set ?L ?R j = {}"
        using dj' [of a j] dj' [of b j] a ab nz by auto
      with a(2,7) show ?thesis by (simp add: Int_Un_distrib2)
    next
      assume a: "j = n" "leaf_set (m_left ?t) (m_right ?t) j = leaf_set ?L ?R a \<union> leaf_set ?L ?R b"
        "i < n" "i \<noteq> a" "i \<noteq> b" "?C ! i \<noteq> 0"
        "leaf_set (m_left ?t) (m_right ?t) i = leaf_set ?L ?R i"
      have "leaf_set ?L ?R i \<inter> leaf_set ?L ?R a = {}" "leaf_set ?L ?R i \<inter> leaf_set ?L ?R b = {}"
        using dj' [of i a] dj' [of i b] a ab nz by auto
      with a(2,7) show ?thesis by (simp add: Int_Un_distrib)
    next
      assume a: "i < n" "?C ! i \<noteq> 0" "leaf_set (m_left ?t) (m_right ?t) i = leaf_set ?L ?R i"
        "j < n" "?C ! j \<noteq> 0" "leaf_set (m_left ?t) (m_right ?t) j = leaf_set ?L ?R j"
      with dj' [of i j] ne show ?thesis by simp
    qed
  qed
  have c6: "has_tree (m_left ?t) (m_right ?t) n \<and> m_left ?t ! n \<noteq> INVALID_TOKEN"
    using node len ab n by (simp add: L' R' consts_defs)
  show ?thesis
    unfolding gh_inv_def using sh ge n c1 c2 c3 c4 c5 c6 by simp
qed

subsection \<open>Running the loop\<close>

lemma generate_huffman_loop_stop1:
  "get_smallest_huffman t n = INVALID_TOKEN \<Longrightarrow> generate_huffman_loop t n = Inr (t, n)"
  by (subst generate_huffman_loop.simps) simp

lemma generate_huffman_loop_stop2:
  "get_smallest_huffman t n = a \<Longrightarrow> a \<noteq> INVALID_TOKEN \<Longrightarrow>
   get_smallest_huffman (hide_node t a) n = INVALID_TOKEN \<Longrightarrow>
   generate_huffman_loop t n = Inr (hide_node t a, n)"
  by (subst generate_huffman_loop.simps) (simp add: Let_def)

lemma generate_huffman_loop_step:
  "get_smallest_huffman t n = a \<Longrightarrow> a \<noteq> INVALID_TOKEN \<Longrightarrow>
   get_smallest_huffman (hide_node t a) n = b \<Longrightarrow> b \<noteq> INVALID_TOKEN \<Longrightarrow>
   n < FREQ_TREE_MAX_NODES \<Longrightarrow>
   generate_huffman_loop t n =
     generate_huffman_loop
       (combine_nodes (hide_node (hide_node t a) b) n (m_count t ! a)
          (m_count (hide_node t a) ! b) a b) (Suc n)"
  by (subst generate_huffman_loop.simps) (simp add: Let_def)

lemma visible_hide:
  "j < length (m_count t) \<Longrightarrow> visible (hide_node t a) j = (j \<noteq> a \<and> visible t j)"
  by (cases "j = a") (simp_all add: visible_def hide_node_count)

lemma max_nodes_le_invalid: "FREQ_TREE_MAX_NODES \<le> INVALID_TOKEN"
  by (simp add: consts_defs)

text \<open>What the two scans of one iteration find, when both find a node.\<close>

lemma scans_found:
  assumes "tree_shape t" "n \<le> FREQ_TREE_MAX_NODES"
    "get_smallest_huffman t n = a" "a \<noteq> INVALID_TOKEN"
    "get_smallest_huffman (hide_node t a) n = b" "b \<noteq> INVALID_TOKEN"
  shows "a < n \<and> b < n \<and> a \<noteq> b \<and> visible t a \<and> visible t b \<and>
         m_count (hide_node t a) ! b = m_count t ! b"
proof -
  have n: "n \<le> INVALID_TOKEN" using assms(2) max_nodes_le_invalid by simp
  from get_smallest_huffman_some [OF n, of t] assms(3,4)
  have a: "a < n" "visible t a" by auto
  from get_smallest_huffman_some [OF n, of "hide_node t a"] assms(5,6)
  have b: "b < n" "visible (hide_node t a) b" by auto
  have "b < length (m_count t)" using b(1) assms(1,2) by (simp add: tree_shape_def)
  with b(2) have "b \<noteq> a" "visible t b" by (simp_all add: visible_hide)
  moreover from this have "m_count (hide_node t a) ! b = m_count t ! b"
    by (simp add: hide_node_count)
  ultimately show ?thesis using a b by auto
qed

definition gh_final :: "FreqTree \<Rightarrow> nat \<Rightarrow> bool" where
  "gh_final t n \<longleftrightarrow>
     tree_shape t \<and> TOKEN_SIZE \<le> n \<and> n \<le> FREQ_TREE_MAX_NODES \<and>
     has_tree (m_left t) (m_right t) (n - 1) \<and>
     (TOKEN_SIZE < n \<longrightarrow> m_left t ! (n - 1) \<noteq> INVALID_TOKEN)"

lemma gh_inv_final: "gh_inv t n \<Longrightarrow> gh_final t n"
proof -
  assume inv: "gh_inv t n"
  show ?thesis
  proof (cases "TOKEN_SIZE < n")
    case True
    with inv show ?thesis by (simp add: gh_inv_def gh_final_def)
  next
    case False
    with inv have n: "n = TOKEN_SIZE" by (simp add: gh_inv_def)
    have "has_tree (m_left t) (m_right t) (TOKEN_SIZE - 1)"
      using inv by (intro has_tree_leaf) (simp_all add: gh_inv_def TOKEN_SIZE_def)
    with inv n show ?thesis by (simp add: gh_inv_def gh_final_def)
  qed
qed

lemma gh_final_hide [simp]: "gh_final (hide_node t a) n = gh_final t n"
  by (simp add: gh_final_def)

lemma generate_huffman_loop_total:
  "gh_inv t n \<Longrightarrow> \<exists>t' n'. generate_huffman_loop t n = Inr (t', n') \<and> gh_final t' n'"
proof (induction "FREQ_TREE_MAX_NODES - n" arbitrary: t n rule: less_induct)
  case less
  note inv = \<open>gh_inv t n\<close>
  then have sh: "tree_shape t" and n: "n \<le> FREQ_TREE_MAX_NODES" by (simp_all add: gh_inv_def)
  define a where "a = get_smallest_huffman t n"
  define b where "b = get_smallest_huffman (hide_node t a) n"
  show ?case
  proof (cases "a = INVALID_TOKEN")
    case True
    then have "generate_huffman_loop t n = Inr (t, n)"
      by (simp add: a_def generate_huffman_loop_stop1)
    with gh_inv_final [OF inv] show ?thesis by simp
  next
    case a: False
    show ?thesis
    proof (cases "b = INVALID_TOKEN")
      case True
      with a have "generate_huffman_loop t n = Inr (hide_node t a, n)"
        by (simp add: a_def b_def generate_huffman_loop_stop2)
      with gh_inv_final [OF inv] show ?thesis by simp
    next
      case b: False
      from scans_found [OF sh n a_def [symmetric] a b_def [symmetric] b]
      have ab: "a < n" "b < n" "a \<noteq> b" "visible t a" "visible t b" by auto
      then have nz: "m_count t ! a \<noteq> 0" "m_count t ! b \<noteq> 0" by (simp_all add: visible_def)
      from gh_inv_room [OF inv ab(1-3) nz] have n': "n < FREQ_TREE_MAX_NODES"
        by (simp add: consts_defs)
      let ?t = "combine_nodes (hide_node (hide_node t a) b) n (m_count t ! a)
          (m_count (hide_node t a) ! b) a b"
      have "gh_inv ?t (Suc n)" by (rule gh_inv_step [OF inv ab(1-3) nz])
      moreover have "FREQ_TREE_MAX_NODES - Suc n < FREQ_TREE_MAX_NODES - n" using n' by simp
      ultimately obtain t' n' where "generate_huffman_loop ?t (Suc n) = Inr (t', n')" "gh_final t' n'"
        using less.hyps by blast
      moreover have "generate_huffman_loop t n = generate_huffman_loop ?t (Suc n)"
        using a b n' by (intro generate_huffman_loop_step) (simp_all add: a_def b_def)
      ultimately show ?thesis by simp
    qed
  qed
qed

text \<open>
  A tree as \<open>freq_tree_init\<close> and \<open>freq_tree_accumulate\<close> leave it: every node a leaf,
  counts in the token slots only.
\<close>

definition fresh_tree :: "FreqTree \<Rightarrow> bool" where
  "fresh_tree t \<longleftrightarrow>
     tree_shape t \<and>
     (\<forall>i<FREQ_TREE_MAX_NODES. m_left t ! i = INVALID_TOKEN \<and> m_right t ! i = INVALID_TOKEN) \<and>
     (\<forall>i. TOKEN_SIZE \<le> i \<and> i < FREQ_TREE_MAX_NODES \<longrightarrow> m_count t ! i = 0)"

lemma fresh_tree_inv:
  assumes "fresh_tree t"
  shows "gh_inv t TOKEN_SIZE"
proof -
  let ?L = "m_left t" and ?R = "m_right t"
  have lf: "\<And>i. i < FREQ_TREE_MAX_NODES \<Longrightarrow> ?L ! i = INVALID_TOKEN"
    using assms by (simp add: fresh_tree_def)
  have "card {i. i < TOKEN_SIZE \<and> m_count t ! i \<noteq> 0} \<le> card {..<TOKEN_SIZE}"
    by (intro card_mono) auto
  then have c: "card {i. i < TOKEN_SIZE \<and> m_count t ! i \<noteq> 0} + TOKEN_SIZE \<le> 2 * TOKEN_SIZE"
    by simp
  have tr: "\<forall>i<TOKEN_SIZE. has_tree ?L ?R i"
    using lf by (auto intro!: has_tree_leaf simp: consts_defs)
  have ls: "\<forall>i<TOKEN_SIZE. leaf_set ?L ?R i = {i}"
    using lf by (auto intro!: leaf_set_leaf simp: consts_defs)
  show ?thesis
    unfolding gh_inv_def using assms c tr ls lf
    by (auto simp: fresh_tree_def consts_defs)
qed

lemma generate_huffman_total:
  assumes "fresh_tree t"
  shows "\<exists>t'. generate_huffman t = Inr t' \<and> tree_shape t' \<and>
           TOKEN_SIZE - 1 \<le> m_top t' \<and> m_top t' < FREQ_TREE_MAX_NODES \<and>
           has_tree (m_left t') (m_right t') (m_top t') \<and>
           (TOKEN_SIZE \<le> m_top t' \<longrightarrow> m_left t' ! m_top t' \<noteq> INVALID_TOKEN)"
proof -
  from generate_huffman_loop_total [OF fresh_tree_inv [OF assms]]
  obtain t' n' where r: "generate_huffman_loop t TOKEN_SIZE = Inr (t', n')" "gh_final t' n'"
    by blast
  then have "generate_huffman t = Inr (t'\<lparr>m_top := n' - 1\<rparr>)"
    by (simp add: generate_huffman_def)
  moreover from r(2) have "tree_shape (t'\<lparr>m_top := n' - 1\<rparr>)" "TOKEN_SIZE - 1 \<le> n' - 1"
    "n' - 1 < FREQ_TREE_MAX_NODES" "has_tree (m_left t') (m_right t') (n' - 1)"
    "TOKEN_SIZE \<le> n' - 1 \<longrightarrow> m_left t' ! (n' - 1) \<noteq> INVALID_TOKEN"
    by (auto simp: gh_final_def tree_shape_def consts_defs)
  ultimately show ?thesis by simp
qed

subsection \<open>Counts that do not overflow\<close>

text \<open>
  When the counts add up to less than \<open>INVALID_TOKEN\<close>, no sum of two counts wraps and
  every nonzero count is one the scan can pick. Then the trees of the nodes still in
  play always cover the tokens \<open>S\<close> that had a count at the start.
\<close>

lemma count_le_sum: "i < length xs \<Longrightarrow> xs ! i \<le> sum_list (xs :: nat list)"
  by (simp add: member_le_sum_list)

lemma sum_list_hide:
  "a < length xs \<Longrightarrow> sum_list (xs[a := 0]) = sum_list (xs :: nat list) - xs ! a"
  by (simp add: sum_list_update)

lemma two_counts_le_sum:
  assumes "a < length xs" "b < length xs" "a \<noteq> b"
  shows "xs ! a + xs ! b \<le> sum_list (xs :: nat list)"
proof -
  have "xs[a := 0] ! b \<le> sum_list (xs[a := 0])"
    using assms(2) by (intro count_le_sum) simp
  then have "xs ! b \<le> sum_list xs - xs ! a"
    using assms by (simp add: sum_list_hide)
  moreover have "xs ! a \<le> sum_list xs" using assms(1) by (rule count_le_sum)
  ultimately show ?thesis by simp
qed

lemma sum_list_merge:
  assumes "a < length xs" "b < length xs" "n < length xs" "a \<noteq> b" "a \<noteq> n" "b \<noteq> n"
    "xs ! n = 0"
  shows "sum_list (xs[a := 0, b := 0, n := xs ! a + xs ! b]) = sum_list (xs :: nat list)"
proof -
  have "sum_list (xs[a := 0, b := 0, n := xs ! a + xs ! b])
        = sum_list (xs[a := 0, b := 0]) + (xs ! a + xs ! b)"
    using assms by (simp add: sum_list_update)
  also have "sum_list (xs[a := 0, b := 0]) = sum_list xs - xs ! a - xs ! b"
    using assms by (simp add: sum_list_update)
  finally show ?thesis using two_counts_le_sum [OF assms(1,2,4)] by simp
qed

definition gh_cover :: "FreqTree \<Rightarrow> nat \<Rightarrow> nat set \<Rightarrow> bool" where
  "gh_cover t n S \<longleftrightarrow>
     sum_list (m_count t) < INVALID_TOKEN \<and>
     (\<forall>k. k \<in> S \<longrightarrow> (\<exists>i<n. m_count t ! i \<noteq> 0 \<and> k \<in> leaf_set (m_left t) (m_right t) i)) \<and>
     (\<forall>i<n. m_count t ! i \<noteq> 0 \<longrightarrow> leaf_set (m_left t) (m_right t) i \<subseteq> S) \<and>
     (TOKEN_SIZE < n \<longrightarrow> m_count t ! (n - 1) \<noteq> 0)"

lemma gh_cover_visible:
  assumes "gh_cover t n S" "i < length (m_count t)"
  shows "visible t i = (m_count t ! i \<noteq> 0)"
proof -
  have "m_count t ! i \<le> sum_list (m_count t)" using assms(2) by (rule count_le_sum)
  with assms(1) show ?thesis by (simp add: gh_cover_def visible_def)
qed

lemma gh_cover_step:
  assumes inv: "gh_inv t n" and cov: "gh_cover t n S" and ab: "a < n" "b < n" "a \<noteq> b"
    and nz: "m_count t ! a \<noteq> 0" "m_count t ! b \<noteq> 0"
  shows "gh_cover (combine_nodes (hide_node (hide_node t a) b) n (m_count t ! a) (m_count t ! b) a b)
           (Suc n) S"
proof -
  let ?t = "combine_nodes (hide_node (hide_node t a) b) n (m_count t ! a) (m_count t ! b) a b"
  let ?L = "m_left t" and ?R = "m_right t" and ?C = "m_count t"
  from gh_inv_room [OF inv ab nz] have n: "n < FREQ_TREE_MAX_NODES"
    by (simp add: consts_defs)
  from inv have sh: "tree_shape t"
    and zero: "\<forall>i. n \<le> i \<and> i < FREQ_TREE_MAX_NODES \<longrightarrow> ?C ! i = 0"
    and tr: "\<forall>i<n. ?C ! i \<noteq> 0 \<longrightarrow> has_tree ?L ?R i"
    and dj: "\<forall>i<n. \<forall>j<n. i \<noteq> j \<and> ?C ! i \<noteq> 0 \<and> ?C ! j \<noteq> 0 \<longrightarrow>
               leaf_set ?L ?R i \<inter> leaf_set ?L ?R j = {}"
    by (simp_all add: gh_inv_def)
  from sh n have len: "n < length ?L" "n < length ?R" "n < length ?C"
    "length ?C = FREQ_TREE_MAX_NODES"
    by (simp_all add: tree_shape_def)
  from cov have sm: "sum_list ?C < INVALID_TOKEN"
    and cv: "\<And>k. k \<in> S \<Longrightarrow> \<exists>i<n. ?C ! i \<noteq> 0 \<and> k \<in> leaf_set ?L ?R i"
    and sb: "\<And>i. i < n \<Longrightarrow> ?C ! i \<noteq> 0 \<Longrightarrow> leaf_set ?L ?R i \<subseteq> S"
    by (auto simp: gh_cover_def)
  have le: "?C ! a + ?C ! b \<le> sum_list ?C"
    using ab len by (intro two_counts_le_sum) auto
  with sm have nowrap: "(?C ! a + ?C ! b) mod SIZE_MOD = ?C ! a + ?C ! b"
    by (simp add: consts_defs)
  have L': "m_left ?t = ?L[n := a]" and R': "m_right ?t = ?R[n := b]"
    and C': "m_count ?t = ?C[a := 0, b := 0, n := ?C ! a + ?C ! b]"
    by (simp_all add: hide_node_count combine_nodes_count nowrap)
  have cnt: "\<And>i. i < FREQ_TREE_MAX_NODES \<Longrightarrow> m_count ?t ! i =
      (if i = n then ?C ! a + ?C ! b else if i = a \<or> i = b then 0 else ?C ! i)"
    using len ab by (auto simp: C' nth_list_update)
  have node: "leaf_set (?L[n := a]) (?R[n := b]) n = leaf_set ?L ?R a \<union> leaf_set ?L ?R b"
    using tr dj ab nz n len has_tree_node [of ?L ?R a b n] by auto
  have s1: "sum_list (m_count ?t) < INVALID_TOKEN"
  proof -
    have "sum_list (?C[a := 0, b := 0, n := ?C ! a + ?C ! b]) = sum_list ?C"
      using ab len zero n by (intro sum_list_merge) auto
    with sm show ?thesis by (simp add: C')
  qed
  have s2: "\<forall>k. k \<in> S \<longrightarrow>
      (\<exists>i<Suc n. m_count ?t ! i \<noteq> 0 \<and> k \<in> leaf_set (m_left ?t) (m_right ?t) i)"
  proof (intro allI impI)
    fix k assume "k \<in> S"
    from cv [OF this] obtain i where i: "i < n" "?C ! i \<noteq> 0" "k \<in> leaf_set ?L ?R i" by blast
    show "\<exists>i<Suc n. m_count ?t ! i \<noteq> 0 \<and> k \<in> leaf_set (m_left ?t) (m_right ?t) i"
    proof (cases "i = a \<or> i = b")
      case True
      with i(3) node have "k \<in> leaf_set (m_left ?t) (m_right ?t) n" by (auto simp: L' R')
      moreover have "m_count ?t ! n \<noteq> 0" using n nz by (simp add: cnt)
      ultimately show ?thesis by blast
    next
      case False
      with i n have "m_count ?t ! i \<noteq> 0" by (simp add: cnt)
      moreover have "k \<in> leaf_set (m_left ?t) (m_right ?t) i"
        using i by (simp add: L' R' leaf_set_update)
      ultimately show ?thesis using i(1) less_SucI by blast
    qed
  qed
  have s3: "\<forall>i<Suc n. m_count ?t ! i \<noteq> 0 \<longrightarrow> leaf_set (m_left ?t) (m_right ?t) i \<subseteq> S"
  proof (intro allI impI)
    fix i assume i: "i < Suc n" "m_count ?t ! i \<noteq> 0"
    show "leaf_set (m_left ?t) (m_right ?t) i \<subseteq> S"
    proof (cases "i = n")
      case True
      with node sb [OF ab(1) nz(1)] sb [OF ab(2) nz(2)] show ?thesis by (simp add: L' R')
    next
      case False
      with i n have "i < n" "?C ! i \<noteq> 0" by (auto simp: cnt split: if_splits)
      with sb [of i] show ?thesis by (simp add: L' R' leaf_set_update)
    qed
  qed
  have s4: "m_count ?t ! n \<noteq> 0" using n nz by (simp add: cnt)
  show ?thesis unfolding gh_cover_def using s1 s2 s3 s4 by simp
qed

text \<open>
  The last iteration: the first scan finds a node and the second finds none. After at
  least one merge that node is the one the last merge created.
\<close>

lemma last_scan_sole:
  assumes inv: "gh_inv t n" and cov: "gh_cover t n S"
    and a: "get_smallest_huffman t n = a" "a \<noteq> INVALID_TOKEN"
    and b: "get_smallest_huffman (hide_node t a) n = INVALID_TOKEN"
  shows "a < n \<and> m_count t ! a \<noteq> 0 \<and> (\<forall>j<n. j \<noteq> a \<longrightarrow> m_count t ! j = 0)"
proof -
  from inv have sh: "tree_shape t" and n: "n \<le> FREQ_TREE_MAX_NODES" by (simp_all add: gh_inv_def)
  have n': "n \<le> INVALID_TOKEN" using n max_nodes_le_invalid by simp
  from get_smallest_huffman_some [OF n', of t] a have "a < n" "visible t a" by auto
  moreover have "\<forall>j<n. j \<noteq> a \<longrightarrow> m_count t ! j = 0"
  proof (intro allI impI)
    fix j assume j: "j < n" "j \<noteq> a"
    then have jl: "j < length (m_count t)" using sh n by (simp add: tree_shape_def)
    from b have "\<not> visible (hide_node t a) j"
      using j(1) by (simp add: get_smallest_huffman_none [OF n'])
    with j(2) jl have "\<not> visible t j" by (simp add: visible_hide)
    with gh_cover_visible [OF cov jl] show "m_count t ! j = 0" by simp
  qed
  ultimately show ?thesis by (simp add: visible_def)
qed

lemma last_scan_is_last_node:
  assumes inv: "gh_inv t n" and cov: "gh_cover t n S" and n: "TOKEN_SIZE < n"
    and a: "get_smallest_huffman t n = a" "a \<noteq> INVALID_TOKEN"
    and b: "get_smallest_huffman (hide_node t a) n = INVALID_TOKEN"
  shows "a = n - 1"
proof -
  from last_scan_sole [OF inv cov a b]
  have "\<forall>j<n. j \<noteq> a \<longrightarrow> m_count t ! j = 0" by simp
  moreover from cov n have "m_count t ! (n - 1) \<noteq> 0" by (simp add: gh_cover_def)
  moreover have "n - 1 < n" using n by simp
  ultimately show ?thesis by metis
qed

definition gh_final_cover :: "FreqTree \<Rightarrow> nat \<Rightarrow> nat set \<Rightarrow> bool" where
  "gh_final_cover t n S \<longleftrightarrow>
     (TOKEN_SIZE < n \<longrightarrow> leaf_set (m_left t) (m_right t) (n - 1) = S) \<and>
     (n = TOKEN_SIZE \<longrightarrow> (\<exists>k. S \<subseteq> {k}))"

lemma generate_huffman_loop_cover:
  "gh_inv t n \<Longrightarrow> gh_cover t n S \<Longrightarrow>
   \<exists>t' n'. generate_huffman_loop t n = Inr (t', n') \<and> gh_final t' n' \<and> gh_final_cover t' n' S"
proof (induction "FREQ_TREE_MAX_NODES - n" arbitrary: t n rule: less_induct)
  case less
  note inv = \<open>gh_inv t n\<close> and cov = \<open>gh_cover t n S\<close>
  then have sh: "tree_shape t" and n: "n \<le> FREQ_TREE_MAX_NODES" and ge: "TOKEN_SIZE \<le> n"
    by (simp_all add: gh_inv_def)
  have n'': "n \<le> INVALID_TOKEN" using n max_nodes_le_invalid by simp
  have len: "\<And>j. j < n \<Longrightarrow> j < length (m_count t)" using sh n by (simp add: tree_shape_def)
  from cov have cv: "\<And>k. k \<in> S \<Longrightarrow> \<exists>i<n. m_count t ! i \<noteq> 0 \<and> k \<in> leaf_set (m_left t) (m_right t) i"
    and sb: "\<And>i. i < n \<Longrightarrow> m_count t ! i \<noteq> 0 \<Longrightarrow> leaf_set (m_left t) (m_right t) i \<subseteq> S"
    and lastnz: "TOKEN_SIZE < n \<Longrightarrow> m_count t ! (n - 1) \<noteq> 0"
    by (auto simp: gh_cover_def)
  define a where "a = get_smallest_huffman t n"
  define b where "b = get_smallest_huffman (hide_node t a) n"
  show ?case
  proof (cases "a = INVALID_TOKEN")
    case True
    then have res: "generate_huffman_loop t n = Inr (t, n)"
      by (simp add: a_def generate_huffman_loop_stop1)
    from True have "\<forall>j<n. \<not> visible t j"
      unfolding a_def by (simp only: get_smallest_huffman_none [OF n''])
    then have none: "\<And>j. j < n \<Longrightarrow> m_count t ! j = 0"
      using gh_cover_visible [OF cov len] by blast
    have "S = {}"
    proof (rule ccontr)
      assume "S \<noteq> {}"
      then obtain k where "k \<in> S" by auto
      from cv [OF this] obtain i where "i < n" "m_count t ! i \<noteq> 0" by blast
      with none show False by simp
    qed
    moreover have "n = TOKEN_SIZE"
    proof (rule ccontr)
      assume "n \<noteq> TOKEN_SIZE"
      with ge have "TOKEN_SIZE < n" by simp
      from lastnz [OF this] none [of "n - 1"] this show False by simp
    qed
    ultimately have "gh_final_cover t n S" by (simp add: gh_final_cover_def)
    with res gh_inv_final [OF inv] show ?thesis by simp
  next
    case a: False
    show ?thesis
    proof (cases "b = INVALID_TOKEN")
      case True
      with a have res: "generate_huffman_loop t n = Inr (hide_node t a, n)"
        by (simp add: a_def b_def generate_huffman_loop_stop2)
      from last_scan_sole [OF inv cov a_def [symmetric] a True [unfolded b_def]]
      have sole: "a < n" "m_count t ! a \<noteq> 0" "\<And>j. j < n \<Longrightarrow> j \<noteq> a \<Longrightarrow> m_count t ! j = 0"
        by auto
      have S: "S = leaf_set (m_left t) (m_right t) a"
      proof
        show "S \<subseteq> leaf_set (m_left t) (m_right t) a"
        proof
          fix k assume "k \<in> S"
          from cv [OF this] obtain i where "i < n" "m_count t ! i \<noteq> 0"
            "k \<in> leaf_set (m_left t) (m_right t) i" by blast
          with sole(3) [of i] show "k \<in> leaf_set (m_left t) (m_right t) a" by auto
        qed
        show "leaf_set (m_left t) (m_right t) a \<subseteq> S" using sb sole by simp
      qed
      have "gh_final_cover (hide_node t a) n S"
      proof (cases "TOKEN_SIZE < n")
        case True
        from last_scan_is_last_node [OF inv cov True a_def [symmetric] a \<open>b = INVALID_TOKEN\<close> [unfolded b_def]]
        have "a = n - 1" .
        with S True show ?thesis by (simp add: gh_final_cover_def)
      next
        case False
        with ge have nT: "n = TOKEN_SIZE" by simp
        from inv sole(1) nT have "m_left t ! a = INVALID_TOKEN" by (simp add: gh_inv_def)
        moreover have "a < FREQ_TREE_MAX_NODES" using sole(1) n by simp
        ultimately have "leaf_set (m_left t) (m_right t) a = {a}" by (rule leaf_set_leaf [rotated])
        with S nT show ?thesis by (auto simp: gh_final_cover_def)
      qed
      with res gh_inv_final [OF inv] show ?thesis by simp
    next
      case b: False
      from scans_found [OF sh n a_def [symmetric] a b_def [symmetric] b]
      have ab: "a < n" "b < n" "a \<noteq> b" "visible t a" "visible t b"
        and hb: "m_count (hide_node t a) ! b = m_count t ! b" by auto
      then have nz: "m_count t ! a \<noteq> 0" "m_count t ! b \<noteq> 0" by (simp_all add: visible_def)
      from gh_inv_room [OF inv ab(1-3) nz] have n': "n < FREQ_TREE_MAX_NODES"
        by (simp add: consts_defs)
      let ?t = "combine_nodes (hide_node (hide_node t a) b) n (m_count t ! a) (m_count t ! b) a b"
      have "gh_inv ?t (Suc n)" by (rule gh_inv_step [OF inv ab(1-3) nz])
      moreover have "gh_cover ?t (Suc n) S" by (rule gh_cover_step [OF inv cov ab(1-3) nz])
      moreover have "FREQ_TREE_MAX_NODES - Suc n < FREQ_TREE_MAX_NODES - n" using n' by simp
      ultimately obtain t' n' where "generate_huffman_loop ?t (Suc n) = Inr (t', n')"
        "gh_final t' n'" "gh_final_cover t' n' S"
        using less.hyps by blast
      moreover have "generate_huffman_loop t n = generate_huffman_loop ?t (Suc n)"
        using a b n' hb generate_huffman_loop_step [of t n a b] by (simp add: a_def b_def)
      ultimately show ?thesis by simp
    qed
  qed
qed

definition tokens_counted :: "FreqTree \<Rightarrow> nat set" where
  "tokens_counted t = {k. k < TOKEN_SIZE \<and> m_count t ! k \<noteq> 0}"

lemma fresh_tree_cover:
  assumes "fresh_tree t" "sum_list (m_count t) < INVALID_TOKEN"
  shows "gh_cover t TOKEN_SIZE (tokens_counted t)"
proof -
  have ls: "\<And>i. i < TOKEN_SIZE \<Longrightarrow> leaf_set (m_left t) (m_right t) i = {i}"
    using assms(1) by (intro leaf_set_leaf) (auto simp: fresh_tree_def consts_defs)
  show ?thesis
    unfolding gh_cover_def tokens_counted_def using assms(2) ls by auto
qed

lemma generate_huffman_cover:
  assumes "fresh_tree t" "sum_list (m_count t) < INVALID_TOKEN" "2 \<le> card (tokens_counted t)"
  shows "\<exists>t'. generate_huffman t = Inr t' \<and> tree_shape t' \<and>
           TOKEN_SIZE \<le> m_top t' \<and> m_top t' < FREQ_TREE_MAX_NODES \<and>
           has_tree (m_left t') (m_right t') (m_top t') \<and>
           m_left t' ! m_top t' \<noteq> INVALID_TOKEN \<and>
           leaf_set (m_left t') (m_right t') (m_top t') = tokens_counted t"
proof -
  from generate_huffman_loop_cover [OF fresh_tree_inv [OF assms(1)] fresh_tree_cover [OF assms(1,2)]]
  obtain t' n' where r: "generate_huffman_loop t TOKEN_SIZE = Inr (t', n')" "gh_final t' n'"
    "gh_final_cover t' n' (tokens_counted t)"
    by blast
  have big: "TOKEN_SIZE < n'"
  proof (rule ccontr)
    assume "\<not> TOKEN_SIZE < n'"
    with r(2) have "n' = TOKEN_SIZE" by (simp add: gh_final_def)
    with r(3) obtain k where "tokens_counted t \<subseteq> {k}" by (auto simp: gh_final_cover_def)
    then have "card (tokens_counted t) \<le> card {k}" by (intro card_mono) auto
    with assms(3) show False by simp
  qed
  from r(1) have "generate_huffman t = Inr (t'\<lparr>m_top := n' - 1\<rparr>)"
    by (simp add: generate_huffman_def)
  moreover from r(2,3) big have "tree_shape (t'\<lparr>m_top := n' - 1\<rparr>)" "TOKEN_SIZE \<le> n' - 1"
    "n' - 1 < FREQ_TREE_MAX_NODES" "has_tree (m_left t') (m_right t') (n' - 1)"
    "m_left t' ! (n' - 1) \<noteq> INVALID_TOKEN"
    "leaf_set (m_left t') (m_right t') (n' - 1) = tokens_counted t"
    by (auto simp: gh_final_def gh_final_cover_def tree_shape_def consts_defs)
  ultimately show ?thesis by simp
qed

section \<open>The traversal writes the paths of the tree\<close>


text \<open>
  \<open>leaf_codes tr p\<close> lists the leaves of \<open>tr\<close> in the order of the traversal, each with its
  path from the root (\<open>False\<close> for a left descent, \<open>True\<close> for a right one), where \<open>p\<close> is
  the path that leads to \<open>tr\<close>.
\<close>

fun leaf_codes :: "htree \<Rightarrow> bool list \<Rightarrow> (nat \<times> bool list) list" where
  "leaf_codes (Leaf k) p = [(k, p)]"
| "leaf_codes (Node l r) p = leaf_codes l (p @ [False]) @ leaf_codes r (p @ [True])"

definition chain_of :: "bool list \<Rightarrow> u8 list" where
  "chain_of p = map of_bool (rev p)"

definition total_bits :: "(nat \<times> bool list) list \<Rightarrow> nat" where
  "total_bits codes = sum_list (map (\<lambda>kq. length (snd kq)) codes)"

fun or_bits :: "u8 list \<Rightarrow> nat \<Rightarrow> u8 list \<Rightarrow> u8 list" where
  "or_bits bytes wo [] = bytes"
| "or_bits bytes wo (v # vs) =
     or_bits (bytes[(wo - 1) div 8 := bytes ! ((wo - 1) div 8) OR push_bit (7 - (wo - 1) mod 8) v])
       (wo - 1) vs"

definition put_code :: "nat \<times> bool list \<Rightarrow> EncodedTable \<Rightarrow> EncodedTable" where
  "put_code kq enc =
     enc\<lparr>m_offset := (m_offset enc)[fst kq := m_currentOffset enc],
         m_currentOffset := m_currentOffset enc + length (snd kq),
         m_packedData := or_bits (m_packedData enc) (m_currentOffset enc + length (snd kq))
                           (chain_of (snd kq))\<rparr>"

definition put_count :: "nat \<times> bool list \<Rightarrow> EncodedTable \<Rightarrow> EncodedTable" where
  "put_count kq enc = enc\<lparr>m_bitcount := (m_bitcount enc)[fst kq := length (snd kq)]\<rparr>"

lemma map_fst_leaf_codes [simp]: "map fst (leaf_codes tr p) = leaves tr"
  by (induction tr arbitrary: p) simp_all

lemma chain_of_snoc [simp]:
  "chain_of (p @ [False]) = 0 # chain_of p" "chain_of (p @ [True]) = 1 # chain_of p"
  by (simp_all add: chain_of_def)

lemma length_chain_of [simp]: "length (chain_of p) = length p"
  by (simp add: chain_of_def)

lemma total_bits_simps [simp]:
  "total_bits [] = 0" "total_bits (kq # cs) = length (snd kq) + total_bits cs"
  "total_bits (cs @ ds) = total_bits cs + total_bits ds"
  by (simp_all add: total_bits_def)

lemma total_bits_ge: "length p \<le> total_bits (leaf_codes tr p)"
proof (induction tr arbitrary: p)
  case (Leaf k)
  then show ?case by simp
next
  case (Node l r)
  from Node.IH(1) [of "p @ [False]"] show ?case by simp
qed

lemma length_or_bits [simp]: "length (or_bits bytes wo vs) = length bytes"
  by (induction vs arbitrary: bytes wo) simp_all

lemma size_dec: "0 < wo \<Longrightarrow> wo < SIZE_MOD \<Longrightarrow> (wo + SIZE_MOD - 1) mod SIZE_MOD = wo - 1"
proof -
  assume a: "0 < wo" "wo < SIZE_MOD"
  then have "wo + SIZE_MOD - 1 = (wo - 1) + SIZE_MOD" by simp
  then have "(wo + SIZE_MOD - 1) mod SIZE_MOD = (wo - 1) mod SIZE_MOD" by simp
  with a show ?thesis by simp
qed

lemma table_bits_lt_size: "8 * MAX_ENCODING_TABLE_BYTES < SIZE_MOD"
  by (simp add: consts_defs)

lemma write_chain_ok:
  "length vs \<le> wo \<Longrightarrow> wo \<le> 8 * MAX_ENCODING_TABLE_BYTES \<Longrightarrow>
   write_chain enc wo vs = Inr (enc\<lparr>m_packedData := or_bits (m_packedData enc) wo vs\<rparr>)"
proof (induction vs arbitrary: enc wo)
  case Nil
  then show ?case by simp
next
  case (Cons v vs)
  then have wo: "0 < wo" "wo < SIZE_MOD" using table_bits_lt_size by simp_all
  have dec: "(wo + SIZE_MOD - Suc 0) mod SIZE_MOD = wo - Suc 0"
    using size_dec [OF wo] by simp
  have inb: "\<not> MAX_ENCODING_TABLE_BYTES \<le> (wo - Suc 0) div 8" using Cons.prems wo by simp
  have "length vs \<le> wo - 1" "wo - 1 \<le> 8 * MAX_ENCODING_TABLE_BYTES" using Cons.prems by simp_all
  from Cons.IH [OF this] show ?case
    by (simp add: dec set_encoded_bit_def inb Let_def)
qed

lemma bit_at_or_bits:
  "length bs \<le> wo \<Longrightarrow> wo \<le> 8 * length bytes \<Longrightarrow>
   bit_at (or_bits bytes wo (map of_bool bs)) pos =
     (bit_at bytes pos \<or> (wo - length bs \<le> pos \<and> pos < wo \<and> bs ! (wo - 1 - pos)))"
proof (induction bs arbitrary: bytes wo)
  case Nil
  then show ?case by auto
next
  case (Cons b bs)
  let ?bytes = "bytes[(wo - 1) div 8 := bytes ! ((wo - 1) div 8) OR push_bit (7 - (wo - 1) mod 8) (of_bool b)]"
  have wo: "0 < wo" using Cons.prems by simp
  have inb: "(wo - 1) div 8 < length bytes" using Cons.prems wo by simp
  have "length bs \<le> wo - 1" "wo - 1 \<le> 8 * length ?bytes" using Cons.prems by simp_all
  from Cons.IH [OF this]
  have "bit_at (or_bits ?bytes (wo - 1) (map of_bool bs)) pos =
        (bit_at ?bytes pos \<or> (wo - 1 - length bs \<le> pos \<and> pos < wo - 1 \<and> bs ! (wo - 1 - 1 - pos)))" .
  also have "bit_at ?bytes pos = (bit_at bytes pos \<or> (pos = wo - 1 \<and> b))"
    by (rule bit_at_update [OF inb])
  finally have *: "bit_at (or_bits bytes wo (map of_bool (b # bs))) pos =
      (bit_at bytes pos \<or> (pos = wo - 1 \<and> b) \<or>
       (wo - 1 - length bs \<le> pos \<and> pos < wo - 1 \<and> bs ! (wo - 1 - 1 - pos)))"
    by simp
  show ?case
  proof (cases "pos = wo - 1")
    case True
    with wo Cons.prems show ?thesis unfolding * by auto
  next
    case False
    show ?thesis
    proof (cases "pos < wo - 1")
      case True
      then have "wo - 1 - pos = Suc (wo - 1 - 1 - pos)" by simp
      then have "(b # bs) ! (wo - 1 - pos) = bs ! (wo - 1 - 1 - pos)" by simp
      with True False Cons.prems show ?thesis unfolding * by auto
    next
      case F: False
      with False have "\<not> pos < wo" by simp
      with F False show ?thesis unfolding * by simp
    qed
  qed
qed

lemma bit_at_code:
  assumes "cur + length q \<le> 8 * length bytes"
  shows "bit_at (or_bits bytes (cur + length q) (chain_of q)) pos =
           (bit_at bytes pos \<or> (cur \<le> pos \<and> pos < cur + length q \<and> q ! (pos - cur)))"
proof -
  have "bit_at (or_bits bytes (cur + length q) (map of_bool (rev q))) pos =
     (bit_at bytes pos \<or> (cur + length q - length (rev q) \<le> pos \<and> pos < cur + length q \<and>
        rev q ! (cur + length q - 1 - pos)))"
    using assms by (intro bit_at_or_bits) simp_all
  moreover have "cur \<le> pos \<Longrightarrow> pos < cur + length q \<Longrightarrow>
      rev q ! (cur + length q - 1 - pos) = q ! (pos - cur)"
  proof -
    assume a: "cur \<le> pos" "pos < cur + length q"
    then have "cur + length q - 1 - pos < length q" by simp
    then have "rev q ! (cur + length q - 1 - pos) = q ! (length q - Suc (cur + length q - 1 - pos))"
      by (rule rev_nth)
    moreover have "length q - Suc (cur + length q - 1 - pos) = pos - cur" using a by simp
    ultimately show ?thesis by simp
  qed
  ultimately show ?thesis by (auto simp: chain_of_def)
qed

lemma visit_leaf_write:
  assumes "k < TOKEN_SIZE" "m_currentOffset enc + length q \<le> 8 * MAX_ENCODING_TABLE_BYTES"
  shows "visit_leaf enc k (chain_of q) (length q) 0 = Inr (put_code (k, q) enc, length q)"
proof -
  have nw: "(m_currentOffset enc + length q) mod SIZE_MOD = m_currentOffset enc + length q"
    using assms(2) table_bits_lt_size by simp
  show ?thesis
    using assms
    by (simp add: visit_leaf_def Let_def nw write_chain_ok put_code_def)
qed

lemma visit_leaf_count:
  assumes "k < TOKEN_SIZE"
  shows "visit_leaf enc k vs (length q) 1 = Inr (put_count (k, q) enc, length q)"
  using assms by (simp add: visit_leaf_def put_count_def)

lemma current_offset_fold_put_code [simp]:
  "m_currentOffset (fold put_code cs enc) = m_currentOffset enc + total_bits cs"
  by (induction cs arbitrary: enc) (simp_all add: put_code_def)

lemma traverse_write:
  assumes "tree_at (m_left t) (m_right t) i tr" "set (leaves tr) \<subseteq> {..<TOKEN_SIZE}"
    "m_currentOffset enc + total_bits (leaf_codes tr p) \<le> 8 * MAX_ENCODING_TABLE_BYTES"
  shows "freq_tree_traverse enc t i (chain_of p) (length p) 0 =
           Some (Inr (fold put_code (leaf_codes tr p) enc, total_bits (leaf_codes tr p)))"
  using assms
proof (induction arbitrary: enc p rule: tree_at.induct)
  case (leaf i)
  then show ?case
    by (subst freq_tree_traverse.simps) (simp add: visit_leaf_write)
next
  case (node i l r)
  let ?cl = "leaf_codes l (p @ [False])" and ?cr = "leaf_codes r (p @ [True])"
  have tot: "total_bits ?cl + total_bits ?cr \<le> 8 * MAX_ENCODING_TABLE_BYTES"
    using node.prems(2) by simp
  have "length (p @ [False]) \<le> total_bits ?cl" by (rule total_bits_ge)
  with tot have "length p + 1 < SIZE_MOD" using table_bits_lt_size by simp
  then have bc: "Suc (length p) mod SIZE_MOD = Suc (length p)" by simp
  have tm: "(total_bits ?cl + total_bits ?cr) mod SIZE_MOD = total_bits ?cl + total_bits ?cr"
    using tot table_bits_lt_size by simp
  have L: "freq_tree_traverse enc t (m_left t ! i) (chain_of (p @ [False])) (length (p @ [False])) 0 =
           Some (Inr (fold put_code ?cl enc, total_bits ?cl))"
    using node.prems by (intro node.IH(1)) simp_all
  have R: "freq_tree_traverse (fold put_code ?cl enc) t (m_right t ! i) (chain_of (p @ [True]))
             (length (p @ [True])) 0 =
           Some (Inr (fold put_code ?cr (fold put_code ?cl enc), total_bits ?cr))"
    using node.prems by (intro node.IH(2)) simp_all
  show ?case
    using node.hyps(1,2) L R
    by (subst freq_tree_traverse.simps) (simp add: bc tm)
qed

lemma traverse_count:
  assumes "tree_at (m_left t) (m_right t) i tr" "set (leaves tr) \<subseteq> {..<TOKEN_SIZE}"
    "total_bits (leaf_codes tr p) < SIZE_MOD"
  shows "freq_tree_traverse enc t i (chain_of p) (length p) 1 =
           Some (Inr (fold put_count (leaf_codes tr p) enc, total_bits (leaf_codes tr p)))"
  using assms
proof (induction arbitrary: enc p rule: tree_at.induct)
  case (leaf i)
  then show ?case
    by (subst freq_tree_traverse.simps) (simp add: visit_leaf_count)
next
  case (node i l r)
  let ?cl = "leaf_codes l (p @ [False])" and ?cr = "leaf_codes r (p @ [True])"
  have tot: "total_bits ?cl + total_bits ?cr < SIZE_MOD"
    using node.prems(2) by simp
  have "length (p @ [False]) \<le> total_bits ?cl" by (rule total_bits_ge)
  with tot have "length p + 1 < SIZE_MOD" by simp
  then have bc: "Suc (length p) mod SIZE_MOD = Suc (length p)" by simp
  have tm: "(total_bits ?cl + total_bits ?cr) mod SIZE_MOD = total_bits ?cl + total_bits ?cr"
    using tot by simp
  have L: "freq_tree_traverse enc t (m_left t ! i) (chain_of (p @ [False])) (length (p @ [False])) 1 =
           Some (Inr (fold put_count ?cl enc, total_bits ?cl))"
    using node.prems by (intro node.IH(1)) simp_all
  have R: "freq_tree_traverse (fold put_count ?cl enc) t (m_right t ! i) (chain_of (p @ [True]))
             (length (p @ [True])) 1 =
           Some (Inr (fold put_count ?cr (fold put_count ?cl enc), total_bits ?cr))"
    using node.prems by (intro node.IH(2)) simp_all
  show ?case
    using node.hyps(1,2) L R
    by (subst freq_tree_traverse.simps) (simp add: bc tm)
qed

subsection \<open>Sizes\<close>

lemma leaves_nonempty: "leaves tr \<noteq> []"
  by (induction tr) simp_all

lemma sum_le_prod: "1 \<le> a \<Longrightarrow> 1 \<le> b \<Longrightarrow> a + b \<le> a * b + (1::nat)"
proof -
  assume "1 \<le> a" "1 \<le> b"
  then obtain a' b' where "a = Suc a'" "b = Suc b'"
    by (metis One_nat_def Suc_le_D)
  then show ?thesis by simp
qed

lemma total_bits_bound:
  "2 * total_bits (leaf_codes tr p) + 2 \<le>
     2 * length (leaves tr) * length p + length (leaves tr) * (length (leaves tr) + 1)"
proof (induction tr arbitrary: p)
  case (Leaf k)
  then show ?case by simp
next
  case (Node l r)
  define a where "a = length (leaves l)"
  define b where "b = length (leaves r)"
  define n where "n = length p"
  have ab: "1 \<le> a" "1 \<le> b"
    using leaves_nonempty [of l] leaves_nonempty [of r]
    by (simp_all add: a_def b_def Suc_le_eq)
  define A where "A = 2 * a * (n + 1) + a * (a + 1)"
  define B where "B = 2 * b * (n + 1) + b * (b + 1)"
  define C where "C = 2 * (a + b) * n + (a + b) * (a + b + 1)"
  define TL where "TL = total_bits (leaf_codes l (p @ [False]))"
  define TR where "TR = total_bits (leaf_codes r (p @ [True]))"
  from Node.IH(1) [of "p @ [False]"] Node.IH(2) [of "p @ [True]"]
  have l: "2 * TL + 2 \<le> A" and r: "2 * TR + 2 \<le> B"
    by (simp_all add: a_def b_def n_def A_def B_def TL_def TR_def)
  define X where "X = (a + b) * n"
  define Y where "Y = a * a + b * b + a + b"
  define Z where "Z = a * b"
  have e1: "A + B = 2 * X + Y + 2 * (a + b)"
    by (simp add: A_def B_def X_def Y_def algebra_simps)
  have e2: "C = 2 * X + Y + 2 * Z"
    by (simp add: C_def X_def Y_def Z_def algebra_simps)
  have z: "a + b \<le> Z + 1" unfolding Z_def using ab by (rule sum_le_prod)
  have "A + B \<le> C + 2" unfolding e1 e2 using z by simp
  with l r have "2 * (TL + TR) + 2 \<le> C" by presburger
  then show ?case by (simp add: a_def b_def n_def C_def TL_def TR_def)
qed

lemma code_length_bound:
  "(k, q) \<in> set (leaf_codes tr p) \<Longrightarrow> length q + 1 \<le> length p + length (leaves tr)"
proof (induction tr arbitrary: p)
  case (Leaf k')
  then show ?case by simp
next
  case (Node l r)
  from Node.prems consider "(k, q) \<in> set (leaf_codes l (p @ [False]))"
    | "(k, q) \<in> set (leaf_codes r (p @ [True]))" by auto
  then show ?case
  proof cases
    case 1
    from Node.IH(1) [OF this] leaves_nonempty [of r] show ?thesis
      by (cases "leaves r") simp_all
  next
    case 2
    from Node.IH(2) [OF this] leaves_nonempty [of l] show ?thesis
      by (cases "leaves l") simp_all
  qed
qed

lemma leaves_count:
  assumes "distinct (leaves tr)" "set (leaves tr) \<subseteq> {..<TOKEN_SIZE}"
  shows "length (leaves tr) \<le> TOKEN_SIZE"
proof -
  have "length (leaves tr) = card (set (leaves tr))"
    using assms(1) by (simp add: distinct_card)
  also have "\<dots> \<le> card {..<TOKEN_SIZE}" using assms(2) by (intro card_mono) auto
  finally show ?thesis by simp
qed

lemma table_holds_codes:
  assumes "distinct (leaves tr)" "set (leaves tr) \<subseteq> {..<TOKEN_SIZE}"
  shows "2 * total_bits (leaf_codes tr []) + 2 \<le> TOKEN_SIZE * (TOKEN_SIZE + 1)"
proof -
  let ?n = "length (leaves tr)"
  have "?n * (?n + 1) \<le> TOKEN_SIZE * (TOKEN_SIZE + 1)"
    using leaves_count [OF assms] by (intro mult_le_mono) simp_all
  with total_bits_bound [of tr "[]"] show ?thesis by simp
qed

lemma table_holds_codes':
  assumes "distinct (leaves tr)" "set (leaves tr) \<subseteq> {..<TOKEN_SIZE}"
  shows "total_bits (leaf_codes tr []) \<le> 8 * MAX_ENCODING_TABLE_BYTES"
    and "total_bits (leaf_codes tr []) < SIZE_MOD"
    and "total_bits (leaf_codes tr []) < UINT32_MOD"
  using table_holds_codes [OF assms] by (simp_all add: consts_defs)

subsection \<open>What the two passes leave in the table\<close>

lemma fold_put_count_fields [simp]:
  "m_offset (fold put_count cs enc) = m_offset enc"
  "m_packedData (fold put_count cs enc) = m_packedData enc"
  "m_currentOffset (fold put_count cs enc) = m_currentOffset enc"
  "length (m_bitcount (fold put_count cs enc)) = length (m_bitcount enc)"
  by (induction cs arbitrary: enc) (simp_all add: put_count_def)

lemma fold_put_code_fields [simp]:
  "m_bitcount (fold put_code cs enc) = m_bitcount enc"
  "length (m_offset (fold put_code cs enc)) = length (m_offset enc)"
  "length (m_packedData (fold put_code cs enc)) = length (m_packedData enc)"
  by (induction cs arbitrary: enc) (simp_all add: put_code_def)

lemma bitcount_fold_other:
  "k \<notin> fst ` set cs \<Longrightarrow> m_bitcount (fold put_count cs enc) ! k = m_bitcount enc ! k"
  by (induction cs arbitrary: enc) (auto simp: put_count_def)

lemma bitcount_fold:
  "distinct (map fst cs) \<Longrightarrow> (k, q) \<in> set cs \<Longrightarrow> k < length (m_bitcount enc) \<Longrightarrow>
   m_bitcount (fold put_count cs enc) ! k = length q"
proof (induction cs arbitrary: enc)
  case Nil
  then show ?case by simp
next
  case (Cons c cs)
  show ?case
  proof (cases "c = (k, q)")
    case True
    with Cons.prems have "k \<notin> fst ` set cs" by auto
    then have "m_bitcount (fold put_count cs (put_count c enc)) ! k = m_bitcount (put_count c enc) ! k"
      by (rule bitcount_fold_other)
    also have "\<dots> = length q" using True Cons.prems(3) by (simp add: put_count_def)
    finally show ?thesis by simp
  next
    case False
    with Cons.prems have "(k, q) \<in> set cs" "distinct (map fst cs)" by auto
    moreover have "k < length (m_bitcount (put_count c enc))"
      using Cons.prems(3) by (simp add: put_count_def)
    ultimately show ?thesis using Cons.IH by simp
  qed
qed

definition code_start :: "(nat \<times> bool list) list \<Rightarrow> nat \<Rightarrow> nat" where
  "code_start cs k = total_bits (takeWhile (\<lambda>kq. fst kq \<noteq> k) cs)"

lemma offset_fold_other:
  "k \<notin> fst ` set cs \<Longrightarrow> m_offset (fold put_code cs enc) ! k = m_offset enc ! k"
  by (induction cs arbitrary: enc) (auto simp: put_code_def)

lemma offset_fold:
  "distinct (map fst cs) \<Longrightarrow> (k, q) \<in> set cs \<Longrightarrow> k < length (m_offset enc) \<Longrightarrow>
   m_offset (fold put_code cs enc) ! k = m_currentOffset enc + code_start cs k"
proof (induction cs arbitrary: enc)
  case Nil
  then show ?case by simp
next
  case (Cons c cs)
  show ?case
  proof (cases "fst c = k")
    case True
    with Cons.prems have "k \<notin> fst ` set cs" by auto
    then have "m_offset (fold put_code cs (put_code c enc)) ! k = m_offset (put_code c enc) ! k"
      by (rule offset_fold_other)
    also have "\<dots> = m_currentOffset enc" using True Cons.prems(3) by (simp add: put_code_def)
    finally show ?thesis using True by (simp add: code_start_def)
  next
    case False
    with Cons.prems have "distinct (map fst cs)" "(k, q) \<in> set cs" by auto
    moreover have "k < length (m_offset (put_code c enc))"
      using Cons.prems(3) by (simp add: put_code_def)
    ultimately have "m_offset (fold put_code cs (put_code c enc)) ! k =
        m_currentOffset (put_code c enc) + code_start cs k"
      by (rule Cons.IH)
    moreover have "m_currentOffset (put_code c enc) = m_currentOffset enc + length (snd c)"
      by (simp add: put_code_def)
    ultimately show ?thesis using False by (simp add: code_start_def)
  qed
qed

lemma length_concat_codes [simp]: "length (concat (map snd cs)) = total_bits cs"
  by (induction cs) simp_all

lemma packed_fold:
  "m_currentOffset enc + total_bits cs \<le> 8 * length (m_packedData enc) \<Longrightarrow>
   bit_at (m_packedData (fold put_code cs enc)) pos =
     (bit_at (m_packedData enc) pos \<or>
      (m_currentOffset enc \<le> pos \<and> pos < m_currentOffset enc + total_bits cs \<and>
       concat (map snd cs) ! (pos - m_currentOffset enc)))"
proof (induction cs arbitrary: enc)
  case Nil
  then show ?case by auto
next
  case (Cons c cs)
  let ?cur = "m_currentOffset enc" and ?q = "snd c"
  let ?enc = "put_code c enc"
  have cur': "m_currentOffset ?enc = ?cur + length ?q" by (simp add: put_code_def)
  have len': "length (m_packedData ?enc) = length (m_packedData enc)" by (simp add: put_code_def)
  have fits: "?cur + length ?q \<le> 8 * length (m_packedData enc)" using Cons.prems by simp
  have "m_currentOffset ?enc + total_bits cs \<le> 8 * length (m_packedData ?enc)"
    using Cons.prems by (simp add: cur' len')
  from Cons.IH [OF this]
  have "bit_at (m_packedData (fold put_code (c # cs) enc)) pos =
     (bit_at (m_packedData ?enc) pos \<or>
      (?cur + length ?q \<le> pos \<and> pos < ?cur + length ?q + total_bits cs \<and>
       concat (map snd cs) ! (pos - (?cur + length ?q))))"
    by (simp add: cur')
  also have "bit_at (m_packedData ?enc) pos =
     (bit_at (m_packedData enc) pos \<or> (?cur \<le> pos \<and> pos < ?cur + length ?q \<and> ?q ! (pos - ?cur)))"
    using bit_at_code [OF fits] by (simp add: put_code_def)
  finally have *: "bit_at (m_packedData (fold put_code (c # cs) enc)) pos =
     (bit_at (m_packedData enc) pos \<or> (?cur \<le> pos \<and> pos < ?cur + length ?q \<and> ?q ! (pos - ?cur)) \<or>
      (?cur + length ?q \<le> pos \<and> pos < ?cur + length ?q + total_bits cs \<and>
       concat (map snd cs) ! (pos - (?cur + length ?q))))" by simp
  show ?case
  proof (cases "pos < ?cur + length ?q")
    case True
    have "(?q @ concat (map snd cs)) ! (pos - ?cur) = ?q ! (pos - ?cur)" if "?cur \<le> pos"
    proof -
      from that True have "pos - ?cur < length ?q" by arith
      then show ?thesis by (simp add: nth_append)
    qed
    with True show ?thesis unfolding * by auto
  next
    case False
    then have "\<not> pos - ?cur < length ?q" "pos - ?cur - length ?q = pos - (?cur + length ?q)"
      by arith+
    then have "(?q @ concat (map snd cs)) ! (pos - ?cur) = concat (map snd cs) ! (pos - (?cur + length ?q))"
      by (simp add: nth_append)
    with False show ?thesis unfolding * by (auto simp: add.assoc)
  qed
qed

lemma codes_split:
  "distinct (map fst cs) \<Longrightarrow> (k, q) \<in> set cs \<Longrightarrow>
   \<exists>rest. cs = takeWhile (\<lambda>kq. fst kq \<noteq> k) cs @ (k, q) # rest"
proof (induction cs)
  case Nil
  then show ?case by simp
next
  case (Cons c cs)
  show ?case
  proof (cases "fst c = k")
    case True
    with Cons.prems have "c = (k, q)" by (cases c) (auto simp: rev_image_eqI)
    then show ?thesis by simp
  next
    case False
    with Cons.prems Cons.IH obtain rest where
      eq: "cs = takeWhile (\<lambda>kq. fst kq \<noteq> k) cs @ (k, q) # rest" by auto
    have "takeWhile (\<lambda>kq. fst kq \<noteq> k) (c # cs) = c # takeWhile (\<lambda>kq. fst kq \<noteq> k) cs"
      using False by simp
    with eq have "c # cs = takeWhile (\<lambda>kq. fst kq \<noteq> k) (c # cs) @ (k, q) # rest"
      by (metis append_Cons)
    then show ?thesis by blast
  qed
qed

lemma concat_codes_nth:
  assumes "distinct (map fst cs)" "(k, q) \<in> set cs" "j < length q"
  shows "concat (map snd cs) ! (code_start cs k + j) = q ! j"
    and "code_start cs k + length q \<le> total_bits cs"
proof -
  let ?pre = "takeWhile (\<lambda>kq. fst kq \<noteq> k) cs"
  from codes_split [OF assms(1,2)] obtain rest where cs: "cs = ?pre @ (k, q) # rest" by blast
  have "concat (map snd cs) = concat (map snd ?pre) @ q @ concat (map snd rest)"
    by (subst cs) simp
  then show "concat (map snd cs) ! (code_start cs k + j) = q ! j"
    using assms(3) by (simp add: code_start_def nth_append)
  have "total_bits cs = total_bits ?pre + length q + total_bits rest"
    by (subst cs) simp
  then show "code_start cs k + length q \<le> total_bits cs"
    by (simp add: code_start_def)
qed

lemma code_range:
  assumes "distinct (map fst cs)" "(k, q) \<in> set cs"
  shows "code_start cs k + length q \<le> total_bits cs"
proof -
  let ?pre = "takeWhile (\<lambda>kq. fst kq \<noteq> k) cs"
  from codes_split [OF assms] obtain rest where cs: "cs = ?pre @ (k, q) # rest" by blast
  have "total_bits cs = total_bits ?pre + length q + total_bits rest"
    by (subst cs) simp
  then show ?thesis by (simp add: code_start_def)
qed

text \<open>
  The bits of a token's range, read in increasing address order: what \<open>encoded_table_dump\<close>
  prints and what \<open>stream_encode\<close> copies.
\<close>

definition code_bits :: "EncodedTable \<Rightarrow> nat \<Rightarrow> bool list" where
  "code_bits enc k =
     map (bit_at (m_packedData enc)) [m_offset enc ! k ..< m_offset enc ! k + m_bitcount enc ! k]"

definition built_table :: "EncodedTable \<Rightarrow> htree \<Rightarrow> EncodedTable" where
  "built_table enc tr =
     fold put_count (leaf_codes tr []) (fold put_code (leaf_codes tr []) (encoded_table_init enc))"

lemma encoded_table_init_fields [simp]:
  "m_packedData (encoded_table_init enc) = m_packedData enc"
  "m_currentOffset (encoded_table_init enc) = 0"
  "length (m_offset (encoded_table_init enc)) = TOKEN_SIZE"
  "length (m_bitcount (encoded_table_init enc)) = TOKEN_SIZE"
  by (simp_all add: encoded_table_init_def)

lemma create_encodings_tree:
  assumes "tree_at (m_left t) (m_right t) (m_top t) tr" "distinct (leaves tr)"
    "set (leaves tr) \<subseteq> {..<TOKEN_SIZE}"
  shows "create_encodings enc t = Some (Inr (built_table enc tr, total_bits (leaf_codes tr [])))"
proof -
  let ?cs = "leaf_codes tr []"
  note b = table_holds_codes' [OF assms(2,3)]
  have w: "freq_tree_traverse (encoded_table_init enc) t (m_top t) [] 0 0 =
      Some (Inr (fold put_code ?cs (encoded_table_init enc), total_bits ?cs))"
    using traverse_write [OF assms(1,3), of "encoded_table_init enc" "[]"] b(1)
    by (simp add: chain_of_def)
  have c: "freq_tree_traverse (fold put_code ?cs (encoded_table_init enc)) t (m_top t) [] 0 1 =
      Some (Inr (built_table enc tr, total_bits ?cs))"
    using traverse_count [OF assms(1,3), of "[]" "fold put_code ?cs (encoded_table_init enc)"] b(2)
    by (simp add: chain_of_def built_table_def)
  show ?thesis
    by (simp add: create_encodings_def Let_def w c)
qed

lemma built_table_shape:
  "length (m_packedData (built_table enc tr)) = length (m_packedData enc)"
  "length (m_offset (built_table enc tr)) = TOKEN_SIZE"
  "length (m_bitcount (built_table enc tr)) = TOKEN_SIZE"
  by (simp_all add: built_table_def)

lemma built_table_bitcount:
  assumes "distinct (leaves tr)" "set (leaves tr) \<subseteq> {..<TOKEN_SIZE}"
  shows "(k, q) \<in> set (leaf_codes tr []) \<Longrightarrow> m_bitcount (built_table enc tr) ! k = length q"
    and "k \<notin> set (leaves tr) \<Longrightarrow> k < TOKEN_SIZE \<Longrightarrow> m_bitcount (built_table enc tr) ! k = 0"
proof -
  assume kq: "(k, q) \<in> set (leaf_codes tr [])"
  then have "k \<in> set (leaves tr)" by (metis map_fst_leaf_codes fst_conv image_eqI set_map)
  with assms(2) have "k < TOKEN_SIZE" by auto
  with kq assms(1) show "m_bitcount (built_table enc tr) ! k = length q"
    unfolding built_table_def by (intro bitcount_fold) simp_all
next
  assume "k \<notin> set (leaves tr)" "k < TOKEN_SIZE"
  then have "k \<notin> fst ` set (leaf_codes tr [])"
    by (metis map_fst_leaf_codes set_map)
  then have "m_bitcount (built_table enc tr) ! k =
      m_bitcount (fold put_code (leaf_codes tr []) (encoded_table_init enc)) ! k"
    unfolding built_table_def by (rule bitcount_fold_other)
  with \<open>k < TOKEN_SIZE\<close> show "m_bitcount (built_table enc tr) ! k = 0"
    by (simp add: encoded_table_init_def)
qed

lemma built_table_offset:
  assumes "distinct (leaves tr)" "set (leaves tr) \<subseteq> {..<TOKEN_SIZE}" "(k, q) \<in> set (leaf_codes tr [])"
  shows "m_offset (built_table enc tr) ! k = code_start (leaf_codes tr []) k"
proof -
  from assms(3) have "k \<in> set (leaves tr)" by (metis map_fst_leaf_codes fst_conv image_eqI set_map)
  with assms(2) have "k < TOKEN_SIZE" by auto
  with assms(1,3) have "m_offset (fold put_code (leaf_codes tr []) (encoded_table_init enc)) ! k =
      m_currentOffset (encoded_table_init enc) + code_start (leaf_codes tr []) k"
    by (intro offset_fold) simp_all
  then show ?thesis by (simp add: built_table_def)
qed

text \<open>
  The bits of a leaf's range after both passes: the bit the array held before, ORed with
  the bit of the path.
\<close>

lemma built_table_code_bits:
  assumes "distinct (leaves tr)" "set (leaves tr) \<subseteq> {..<TOKEN_SIZE}" "(k, q) \<in> set (leaf_codes tr [])"
    "length (m_packedData enc) = MAX_ENCODING_TABLE_BYTES"
  shows "code_bits (built_table enc tr) k =
           map (\<lambda>j. bit_at (m_packedData enc) (code_start (leaf_codes tr []) k + j) \<or> q ! j)
             [0..<length q]"
proof -
  let ?cs = "leaf_codes tr []"
  let ?s = "code_start ?cs k"
  have d: "distinct (map fst ?cs)" using assms(1) by simp
  have off: "m_offset (built_table enc tr) ! k = ?s" by (rule built_table_offset [OF assms(1-3)])
  have cnt: "m_bitcount (built_table enc tr) ! k = length q"
    by (rule built_table_bitcount(1) [OF assms(1-3)])
  have fit: "m_currentOffset (encoded_table_init enc) + total_bits ?cs
       \<le> 8 * length (m_packedData (encoded_table_init enc))"
    using table_holds_codes'(1) [OF assms(1,2)] assms(4) by simp
  have rng: "?s + length q \<le> total_bits ?cs" by (rule code_range [OF d assms(3)])
  have bits: "\<And>j. j < length q \<Longrightarrow>
      bit_at (m_packedData (built_table enc tr)) (?s + j) =
        (bit_at (m_packedData enc) (?s + j) \<or> q ! j)"
  proof -
    fix j assume j: "j < length q"
    have "bit_at (m_packedData (fold put_code ?cs (encoded_table_init enc))) (?s + j) =
       (bit_at (m_packedData enc) (?s + j) \<or> (?s + j < total_bits ?cs \<and> concat (map snd ?cs) ! (?s + j)))"
      using packed_fold [OF fit, of "?s + j"] by simp
    moreover have "?s + j < total_bits ?cs" using rng j by simp
    moreover have "concat (map snd ?cs) ! (?s + j) = q ! j"
      by (rule concat_codes_nth(1) [OF d assms(3) j])
    ultimately show "bit_at (m_packedData (built_table enc tr)) (?s + j) =
        (bit_at (m_packedData enc) (?s + j) \<or> q ! j)"
      by (simp add: built_table_def)
  qed
  show ?thesis
    by (rule nth_equalityI) (simp_all add: code_bits_def off cnt bits)
qed

lemma built_table_code_bits_zero:
  assumes "distinct (leaves tr)" "set (leaves tr) \<subseteq> {..<TOKEN_SIZE}" "(k, q) \<in> set (leaf_codes tr [])"
    "length (m_packedData enc) = MAX_ENCODING_TABLE_BYTES" "\<forall>b\<in>set (m_packedData enc). b = 0"
  shows "code_bits (built_table enc tr) k = q"
proof -
  let ?s = "code_start (leaf_codes tr []) k"
  have d: "distinct (map fst (leaf_codes tr []))" using assms(1) by simp
  have "\<And>j. j < length q \<Longrightarrow> \<not> bit_at (m_packedData enc) (?s + j)"
  proof -
    fix j assume "j < length q"
    with code_range [OF d assms(3)] table_holds_codes'(1) [OF assms(1,2)] assms(4)
    have "(?s + j) div 8 < length (m_packedData enc)" by simp
    with assms(5) have "m_packedData enc ! ((?s + j) div 8) = 0" by simp
    then show "\<not> bit_at (m_packedData enc) (?s + j)" by (simp add: bit_at_def)
  qed
  then show ?thesis
    unfolding built_table_code_bits [OF assms(1-4)]
    by (intro nth_equalityI) simp_all
qed

section \<open>Writing to and reading from the stream\<close>

text \<open>\<open>append_bits\<close>: what a run of \<open>stream_write_bit\<close> calls does to a stream with room.\<close>

fun append_bits :: "Stream \<Rightarrow> bool list \<Rightarrow> Stream" where
  "append_bits s [] = s"
| "append_bits s (b # bs) =
     append_bits
       (s\<lparr>m_buffer := (m_buffer s)[m_offset_s s div 8 :=
             (m_buffer s ! (m_offset_s s div 8)) OR push_bit (7 - m_offset_s s mod 8) (of_bool b)],
          m_offset_s := m_offset_s s + 1\<rparr>) bs"

lemma append_bits_append: "append_bits s (xs @ ys) = append_bits (append_bits s xs) ys"
  by (induction xs arbitrary: s) simp_all

lemma append_bits_fields [simp]:
  "m_offset_s (append_bits s bs) = m_offset_s s + length bs"
  "length (m_buffer (append_bits s bs)) = length (m_buffer s)"
  by (induction bs arbitrary: s) simp_all

lemma bit_at_append_bits:
  "m_offset_s s + length bs \<le> 8 * length (m_buffer s) \<Longrightarrow>
   bit_at (m_buffer (append_bits s bs)) pos =
     (bit_at (m_buffer s) pos \<or>
      (m_offset_s s \<le> pos \<and> pos < m_offset_s s + length bs \<and> bs ! (pos - m_offset_s s)))"
proof (induction bs arbitrary: s)
  case Nil
  then show ?case by auto
next
  case (Cons b bs)
  let ?o = "m_offset_s s"
  let ?s = "s\<lparr>m_buffer := (m_buffer s)[?o div 8 :=
             (m_buffer s ! (?o div 8)) OR push_bit (7 - ?o mod 8) (of_bool b)],
          m_offset_s := ?o + 1\<rparr>"
  have inb: "?o div 8 < length (m_buffer s)" using Cons.prems by simp
  have "m_offset_s ?s + length bs \<le> 8 * length (m_buffer ?s)" using Cons.prems by simp
  from Cons.IH [OF this]
  have "bit_at (m_buffer (append_bits s (b # bs))) pos =
      (bit_at (m_buffer ?s) pos \<or> (?o + 1 \<le> pos \<and> pos < ?o + 1 + length bs \<and> bs ! (pos - (?o + 1))))"
    by simp
  also have "bit_at (m_buffer ?s) pos = (bit_at (m_buffer s) pos \<or> (pos = ?o \<and> b))"
    using bit_at_update [OF inb] by simp
  finally have *: "bit_at (m_buffer (append_bits s (b # bs))) pos =
      (bit_at (m_buffer s) pos \<or> (pos = ?o \<and> b) \<or>
       (?o + 1 \<le> pos \<and> pos < ?o + 1 + length bs \<and> bs ! (pos - (?o + 1))))" by simp
  show ?case
  proof (cases "pos = ?o")
    case True
    then show ?thesis unfolding * by auto
  next
    case False
    have "(b # bs) ! (pos - ?o) = bs ! (pos - (?o + 1))" if "?o + 1 \<le> pos"
    proof -
      from that have "pos - ?o = Suc (pos - (?o + 1))" by arith
      then show ?thesis by simp
    qed
    with False show ?thesis unfolding * by auto
  qed
qed

lemma stream_write_bit_ok:
  "m_offset_s s < 8 * STREAM_BUFFER_BYTES \<Longrightarrow>
   stream_write_bit s (of_bool b) = Inr (append_bits s [b])"
  by (simp add: stream_write_bit_def)

lemma stream_write_bit_full:
  "8 * STREAM_BUFFER_BYTES \<le> m_offset_s s \<Longrightarrow> stream_write_bit s v = Inl OutOfBounds"
  by (simp add: stream_write_bit_def)

lemma stream_read_bit_ok:
  "m_offset_s s < 8 * STREAM_BUFFER_BYTES \<Longrightarrow>
   stream_read_bit s = Inr (of_bool (bit_at (m_buffer s) (m_offset_s s)),
                            s\<lparr>m_offset_s := m_offset_s s + 1\<rparr>)"
  by (simp add: stream_read_bit_def read_bit_word bit_at_def)

text \<open>A run of calls: \<open>write_bits\<close> writes the values in turn, \<open>read_bits\<close> reads \<open>n\<close> bits.\<close>

fun write_bits :: "Stream \<Rightarrow> u8 list \<Rightarrow> fault + Stream" where
  "write_bits s [] = Inr s"
| "write_bits s (v # vs) =
     (case stream_write_bit s v of Inl f \<Rightarrow> Inl f | Inr s' \<Rightarrow> write_bits s' vs)"

fun read_bits :: "Stream \<Rightarrow> nat \<Rightarrow> fault + (u8 list \<times> Stream)" where
  "read_bits s 0 = Inr ([], s)"
| "read_bits s (Suc n) =
     (case stream_read_bit s of
        Inl f \<Rightarrow> Inl f
      | Inr (v, s') \<Rightarrow>
          (case read_bits s' n of Inl f \<Rightarrow> Inl f | Inr (vs, s'') \<Rightarrow> Inr (v # vs, s'')))"

lemma write_bits_ok:
  "m_offset_s s + length bs \<le> 8 * STREAM_BUFFER_BYTES \<Longrightarrow>
   write_bits s (map of_bool bs) = Inr (append_bits s bs)"
proof (induction bs arbitrary: s)
  case Nil
  then show ?case by simp
next
  case (Cons b bs)
  then have "stream_write_bit s (of_bool b) = Inr (append_bits s [b])"
    by (intro stream_write_bit_ok) simp
  moreover have "write_bits (append_bits s [b]) (map of_bool bs) = Inr (append_bits (append_bits s [b]) bs)"
    using Cons.prems by (intro Cons.IH) simp
  ultimately show ?case by simp
qed

lemma write_bits_append:
  "write_bits s (xs @ ys) =
     (case write_bits s xs of Inl f \<Rightarrow> Inl f | Inr s' \<Rightarrow> write_bits s' ys)"
  by (induction xs arbitrary: s) (simp_all split: sum.splits)

lemma read_bits_ok:
  "m_offset_s s + n \<le> 8 * STREAM_BUFFER_BYTES \<Longrightarrow>
   read_bits s n = Inr (map (\<lambda>p. of_bool (bit_at (m_buffer s) p)) [m_offset_s s ..< m_offset_s s + n],
                        s\<lparr>m_offset_s := m_offset_s s + n\<rparr>)"
proof (induction n arbitrary: s)
  case 0
  then show ?case by simp
next
  case (Suc n)
  let ?s = "s\<lparr>m_offset_s := m_offset_s s + 1\<rparr>"
  from Suc.prems have "stream_read_bit s = Inr (of_bool (bit_at (m_buffer s) (m_offset_s s)), ?s)"
    by (intro stream_read_bit_ok) simp
  moreover have "read_bits ?s n =
      Inr (map (\<lambda>p. of_bool (bit_at (m_buffer ?s) p)) [m_offset_s ?s ..< m_offset_s ?s + n],
           ?s\<lparr>m_offset_s := m_offset_s ?s + n\<rparr>)"
    using Suc.prems by (intro Suc.IH) simp
  ultimately show ?case by (simp add: upt_rec [of "m_offset_s s"])
qed

lemma of_bool_bits: "set vs \<subseteq> {0, 1 :: u8} \<Longrightarrow> map of_bool (map (\<lambda>v. v = 1) vs) = vs"
  by (induction vs) auto

lemma zero_buffer_bit: "set bytes \<subseteq> {0} \<Longrightarrow> pos div 8 < length bytes \<Longrightarrow> \<not> bit_at bytes pos"
proof -
  assume "set bytes \<subseteq> {0}" "pos div 8 < length bytes"
  then have "bytes ! (pos div 8) = 0" using nth_mem by blast
  then show ?thesis by (simp add: bit_at_def)
qed

lemma nonzero_buffer_bit:
  assumes "\<not> set bytes \<subseteq> {0}"
  shows "\<exists>pos < 8 * length bytes. bit_at bytes pos"
proof -
  from assms obtain i where i: "i < length bytes" "bytes ! i \<noteq> 0"
    by (metis in_set_conv_nth insert_iff subsetI)
  then obtain j where j: "bit (bytes ! i) j" by (auto simp: bit_eq_iff)
  then have j8: "j < 8" by (auto dest: bit_imp_le_length)
  define k where "k = 7 - j"
  have k: "k < 8" "7 - k = j" using j8 by (simp_all add: k_def)
  let ?pos = "8 * i + k"
  have "?pos div 8 = i" "?pos mod 8 = k" using k(1) by simp_all
  with j k(2) have "bit_at bytes ?pos" by (simp add: bit_at_def)
  moreover have "?pos < 8 * length bytes" using i(1) k(1) by simp
  ultimately show ?thesis by blast
qed

text \<open>Writing \<open>bs\<close> from offset 0, resetting, and reading as many bits back.\<close>

lemma write_reset_read:
  assumes "length (m_buffer s) = STREAM_BUFFER_BYTES" "m_offset_s s = 0"
    "length bs \<le> 8 * STREAM_BUFFER_BYTES"
  shows "write_bits s (map of_bool bs) = Inr (append_bits s bs)"
    and "read_bits (stream_reset (append_bits s bs)) (length bs) =
           Inr (map (\<lambda>p. of_bool (bit_at (m_buffer s) p \<or> bs ! p)) [0..<length bs],
                append_bits s bs)"
proof -
  show "write_bits s (map of_bool bs) = Inr (append_bits s bs)"
    using assms by (intro write_bits_ok) simp
  let ?s = "stream_reset (append_bits s bs)"
  have "read_bits ?s (length bs) =
      Inr (map (\<lambda>p. of_bool (bit_at (m_buffer ?s) p)) [m_offset_s ?s ..< m_offset_s ?s + length bs],
           ?s\<lparr>m_offset_s := m_offset_s ?s + length bs\<rparr>)"
    using assms by (intro read_bits_ok) (simp add: stream_reset_def)
  moreover have "map (\<lambda>p. of_bool (bit_at (m_buffer ?s) p) :: u8) [0..<length bs] =
      map (\<lambda>p. of_bool (bit_at (m_buffer s) p \<or> bs ! p)) [0..<length bs]"
    using assms bit_at_append_bits [of s bs]
    by (intro map_cong refl) (simp add: stream_reset_def)
  moreover have "?s\<lparr>m_offset_s := length bs\<rparr> = append_bits s bs"
    using assms(2) by (simp add: stream_reset_def)
  ultimately show "read_bits ?s (length bs) =
           Inr (map (\<lambda>p. of_bool (bit_at (m_buffer s) p \<or> bs ! p)) [0..<length bs],
                append_bits s bs)"
    by (simp add: stream_reset_def)
qed

section \<open>Decoding follows paths\<close>

text \<open>
  A leaf is a node whose \<open>m_left\<close> is \<open>INVALID_TOKEN\<close>; \<open>child\<close> is one step of the decoder
  (on its \<open>uint32_t\<close> index), \<open>descend\<close> a run of steps along a list of bits.
\<close>

definition is_leaf :: "FreqTree \<Rightarrow> nat \<Rightarrow> bool" where
  "is_leaf t k \<longleftrightarrow> m_left t ! k = INVALID_TOKEN"

definition child :: "FreqTree \<Rightarrow> nat \<Rightarrow> bool \<Rightarrow> nat" where
  "child t cur b = (if b then m_right t ! cur else m_left t ! cur) mod UINT32_MOD"

fun descend :: "FreqTree \<Rightarrow> nat \<Rightarrow> bool list \<Rightarrow> nat" where
  "descend t cur [] = cur"
| "descend t cur (b # bs) = descend t (child t cur b) bs"

text \<open>
  \<open>walk t cur q k\<close>: from node \<open>cur\<close> the bits \<open>q\<close> (at least one) lead to the leaf \<open>k\<close>, and
  to no leaf before the last bit.
\<close>

fun walk :: "FreqTree \<Rightarrow> nat \<Rightarrow> bool list \<Rightarrow> nat \<Rightarrow> bool" where
  "walk t cur [] k = False"
| "walk t cur [b] k = (child t cur b = k \<and> is_leaf t k)"
| "walk t cur (b # b' # bs) k = (\<not> is_leaf t (child t cur b) \<and> walk t (child t cur b) (b' # bs) k)"

definition stream_bits :: "Stream \<Rightarrow> nat \<Rightarrow> bool list" where
  "stream_bits s n = map (bit_at (m_buffer s)) [m_offset_s s ..< m_offset_s s + n]"

lemma stream_bits_Suc:
  "stream_bits s (Suc n) =
     bit_at (m_buffer s) (m_offset_s s) # stream_bits (s\<lparr>m_offset_s := m_offset_s s + 1\<rparr>) n"
proof -
  have "[m_offset_s s ..< m_offset_s s + Suc n] = m_offset_s s # [Suc (m_offset_s s) ..< m_offset_s s + Suc n]"
    by (rule upt_conv_Cons) simp
  then show ?thesis by (simp add: stream_bits_def del: upt_Suc)
qed

lemma stream_bits_add:
  "stream_bits s (n + m) = stream_bits s n @ stream_bits (s\<lparr>m_offset_s := m_offset_s s + n\<rparr>) m"
proof -
  have "[m_offset_s s ..< m_offset_s s + n + m] =
        [m_offset_s s ..< m_offset_s s + n] @ [m_offset_s s + n ..< m_offset_s s + n + m]"
    by (rule upt_add_eq_append) simp
  then show ?thesis by (simp add: stream_bits_def add.assoc)
qed

lemma walk_descend: "walk t cur q k \<Longrightarrow> q \<noteq> [] \<and> descend t cur q = k \<and> is_leaf t k"
  by (induction t cur q k rule: walk.induct) auto

lemma of_bool_neq_0: "((of_bool b :: u8) \<noteq> 0) = b"
  by simp

text \<open>What one run of the \<open>do ... while\<close> returns, when it returns.\<close>

lemma decode_token_sound:
  "decode_token s t cur = Inr (k, s') \<Longrightarrow>
   \<exists>q. walk t cur q k \<and> q = stream_bits s (length q) \<and>
       s' = s\<lparr>m_offset_s := m_offset_s s + length q\<rparr> \<and> k < FREQ_TREE_MAX_NODES"
proof (induction s t cur arbitrary: k s' rule: decode_token.induct)
  case (1 s t cur)
  from "1.prems" obtain v s1 where rd: "stream_read_bit s = Inr (v, s1)"
    by (subst (asm) decode_token.simps) (auto split: sum.splits)
  then have inb: "m_offset_s s < 8 * STREAM_BUFFER_BYTES"
    by (auto simp: stream_read_bit_def split: if_splits)
  define b where "b = bit_at (m_buffer s) (m_offset_s s)"
  from rd stream_read_bit_ok [OF inb] have v: "v = of_bool b"
    and s1: "s1 = s\<lparr>m_offset_s := m_offset_s s + 1\<rparr>"
    by (simp_all add: b_def)
  define c where "c = (if v \<noteq> 0 then m_right t ! cur else m_left t ! cur) mod UINT32_MOD"
  have c: "c = child t cur b" by (simp add: c_def v child_def)
  from "1.prems" rd have
    in1: "\<not> FREQ_TREE_MAX_NODES \<le> cur" and in2: "\<not> FREQ_TREE_MAX_NODES \<le> c" and
    rest: "(if m_left t ! c \<noteq> INVALID_TOKEN then decode_token s1 t c else Inr (c, s1)) = Inr (k, s')"
    unfolding c_def
    by - (subst (asm) decode_token.simps, simp add: Let_def split: if_splits)+
  show ?case
  proof (cases "m_left t ! c \<noteq> INVALID_TOKEN")
    case True
    with rest have "decode_token s1 t c = Inr (k, s')" by simp
    from "1.IH" [OF rd refl in1 c_def in2 True this]
    obtain q where q: "walk t c q k" "q = stream_bits s1 (length q)"
      "s' = s1\<lparr>m_offset_s := m_offset_s s1 + length q\<rparr>" "k < FREQ_TREE_MAX_NODES"
      by blast
    from q(1) obtain b' bs where q': "q = b' # bs" by (cases q) auto
    have "walk t cur (b # q) k"
      using q(1) True by (simp add: q' c is_leaf_def)
    moreover have "b # q = stream_bits s (length (b # q))"
      using q(2) by (simp add: stream_bits_Suc b_def s1)
    moreover have "s' = s\<lparr>m_offset_s := m_offset_s s + length (b # q)\<rparr>"
      using q(3) by (simp add: s1)
    ultimately show ?thesis using q(4) by blast
  next
    case False
    with rest have k: "k = c" "s' = s1" by simp_all
    have "walk t cur [b] k" using False by (simp add: k c is_leaf_def)
    moreover have "[b] = stream_bits s (length [b])"
      by (simp add: stream_bits_def b_def)
    moreover have "s' = s\<lparr>m_offset_s := m_offset_s s + length [b]\<rparr>" by (simp add: k s1)
    moreover have "k < FREQ_TREE_MAX_NODES" using in2 k by simp
    ultimately show ?thesis by blast
  qed
qed

text \<open>And the converse: a walk inside the tree and the stream is what the loop does.\<close>

lemma decode_token_complete:
  "walk t cur q k \<Longrightarrow> q = stream_bits s (length q) \<Longrightarrow>
   m_offset_s s + length q \<le> 8 * STREAM_BUFFER_BYTES \<Longrightarrow>
   cur < FREQ_TREE_MAX_NODES \<Longrightarrow>
   (\<forall>n. 0 < n \<and> n \<le> length q \<longrightarrow> descend t cur (take n q) < FREQ_TREE_MAX_NODES) \<Longrightarrow>
   decode_token s t cur = Inr (k, s\<lparr>m_offset_s := m_offset_s s + length q\<rparr>)"
proof (induction t cur q k arbitrary: s rule: walk.induct)
  case (1 t cur k)
  then show ?case by simp
next
  case (2 t cur b k)
  have inb: "m_offset_s s < 8 * STREAM_BUFFER_BYTES" using "2.prems"(3) by simp
  have b: "b = bit_at (m_buffer s) (m_offset_s s)"
    using "2.prems"(2) by (simp add: stream_bits_def)
  have "child t cur b < FREQ_TREE_MAX_NODES" using "2.prems"(5) [rule_format, of 1] by simp
  with "2.prems"(1,4) show ?case
    by (subst decode_token.simps)
       (simp add: stream_read_bit_ok [OF inb] b [symmetric] child_def is_leaf_def Let_def)
next
  case (3 t cur b b' bs k)
  let ?s1 = "s\<lparr>m_offset_s := m_offset_s s + 1\<rparr>"
  let ?c = "child t cur b"
  have inb: "m_offset_s s < 8 * STREAM_BUFFER_BYTES" using "3.prems"(3) by simp
  have bits: "b = bit_at (m_buffer s) (m_offset_s s)" "b' # bs = stream_bits ?s1 (length (b' # bs))"
    using "3.prems"(2) by (simp_all add: stream_bits_Suc)
  have cin: "?c < FREQ_TREE_MAX_NODES" using "3.prems"(5) [rule_format, of 1] by simp
  have w: "\<not> is_leaf t ?c" "walk t ?c (b' # bs) k" using "3.prems"(1) by simp_all
  have "\<forall>n. 0 < n \<and> n \<le> length (b' # bs) \<longrightarrow> descend t ?c (take n (b' # bs)) < FREQ_TREE_MAX_NODES"
  proof (intro allI impI)
    fix n assume "0 < n \<and> n \<le> length (b' # bs)"
    with "3.prems"(5) [rule_format, of "Suc n"]
    show "descend t ?c (take n (b' # bs)) < FREQ_TREE_MAX_NODES" by simp
  qed
  with "3.IH" [OF w(2) bits(2) _ cin] "3.prems"(3)
  have "decode_token ?s1 t ?c = Inr (k, ?s1\<lparr>m_offset_s := m_offset_s ?s1 + length (b' # bs)\<rparr>)"
    by simp
  with w(1) cin "3.prems"(4) show ?case
    by (subst decode_token.simps)
       (simp add: stream_read_bit_ok [OF inb] bits(1) [symmetric] child_def is_leaf_def Let_def)
qed

text \<open>
  \<open>path_to t cur q k\<close>: \<open>q\<close> is the path from node \<open>cur\<close> down to the leaf \<open>k\<close>, through inner
  nodes inside the arrays.
\<close>

fun path_to :: "FreqTree \<Rightarrow> nat \<Rightarrow> bool list \<Rightarrow> nat \<Rightarrow> bool" where
  "path_to t cur [] k = (cur = k \<and> k < FREQ_TREE_MAX_NODES \<and> is_leaf t k)"
| "path_to t cur (b # bs) k =
     (cur < FREQ_TREE_MAX_NODES \<and> \<not> is_leaf t cur \<and> path_to t (child t cur b) bs k)"

lemma path_to_inside: "path_to t cur q k \<Longrightarrow> cur < FREQ_TREE_MAX_NODES"
  by (cases q) auto

lemma path_to_walk:
  "path_to t cur q k \<Longrightarrow> q \<noteq> [] \<Longrightarrow>
   walk t cur q k \<and> (\<forall>n. 0 < n \<and> n \<le> length q \<longrightarrow> descend t cur (take n q) < FREQ_TREE_MAX_NODES)"
proof (induction t cur q k rule: walk.induct)
  case (1 t cur k)
  then show ?case by simp
next
  case (2 t cur b k)
  then show ?case by (auto simp: take_Suc_conv_app_nth)
next
  case (3 t cur b b' bs k)
  from "3.prems" have p: "path_to t (child t cur b) (b' # bs) k" "\<not> is_leaf t (child t cur b)"
    by simp_all
  from "3.IH" [OF p(1)] have w: "walk t (child t cur b) (b' # bs) k"
    and ins: "\<And>n. 0 < n \<Longrightarrow> n \<le> length (b' # bs) \<Longrightarrow>
                descend t (child t cur b) (take n (b' # bs)) < FREQ_TREE_MAX_NODES"
    by simp_all
  have "descend t cur (take n (b # b' # bs)) < FREQ_TREE_MAX_NODES"
    if "0 < n" "n \<le> length (b # b' # bs)" for n
  proof (cases n)
    case 0
    with that show ?thesis by simp
  next
    case (Suc m)
    show ?thesis
    proof (cases m)
      case 0
      with Suc path_to_inside [OF p(1)] show ?thesis by simp
    next
      case (Suc m')
      with \<open>n = Suc m\<close> that ins [of m] show ?thesis by simp
    qed
  qed
  with w p(2) show ?case by simp
qed

lemma tree_paths:
  assumes "tree_at (m_left t) (m_right t) i tr" "(k, q) \<in> set (leaf_codes tr p)"
  shows "\<exists>q'. q = p @ q' \<and> path_to t i q' k"
  using assms
proof (induction arbitrary: p rule: tree_at.induct)
  case (leaf i)
  then show ?case by (simp add: is_leaf_def)
next
  case (node i l r)
  have lt: "m_left t ! i < UINT32_MOD" "m_right t ! i < UINT32_MOD"
    using node.hyps(1,3,4) by (simp_all add: consts_defs)
  from node.prems consider "(k, q) \<in> set (leaf_codes l (p @ [False]))"
    | "(k, q) \<in> set (leaf_codes r (p @ [True]))" by auto
  then show ?case
  proof cases
    case 1
    from node.IH(1) [OF this] obtain q' where "q = (p @ [False]) @ q'" "path_to t (m_left t ! i) q' k"
      by blast
    then have "q = p @ (False # q')" "path_to t i (False # q') k"
      using node.hyps(1,2) lt by (simp_all add: is_leaf_def child_def)
    then show ?thesis by blast
  next
    case 2
    from node.IH(2) [OF this] obtain q' where "q = (p @ [True]) @ q'" "path_to t (m_right t ! i) q' k"
      by blast
    then have "q = p @ (True # q')" "path_to t i (True # q') k"
      using node.hyps(1,2) lt by (simp_all add: is_leaf_def child_def)
    then show ?thesis by blast
  qed
qed

subsection \<open>The outer loop\<close>

lemma stream_decode_loop_sound:
  "stream_decode_loop s t printed0 = (printed, r) \<Longrightarrow>
   \<exists>new paths. printed = printed0 @ new \<and>
      list_all2 (walk t (m_top t mod UINT32_MOD)) paths new \<and>
      concat paths = stream_bits s (length (concat paths)) \<and>
      0 \<notin> set (butlast new) \<and>
      (case r of
         Inr s' \<Rightarrow> new \<noteq> [] \<and> last new = 0 \<and>
                   s' = s\<lparr>m_offset_s := m_offset_s s + length (concat paths)\<rparr>
       | Inl f \<Rightarrow> 0 \<notin> set new)"
proof (induction s t printed0 arbitrary: printed r rule: stream_decode_loop.induct)
  case (1 s t printed0)
  let ?top = "m_top t mod UINT32_MOD"
  show ?case
  proof (cases "decode_token s t ?top")
    case (Inl f)
    with "1.prems" have "printed = printed0" "r = Inl f"
      by (subst (asm) stream_decode_loop.simps, simp)+
    then show ?thesis
      by (intro exI [of _ "[]"]) (simp add: stream_bits_def)
  next
    case (Inr a)
    then obtain cur s1 where dt: "decode_token s t ?top = Inr (cur, s1)" by (cases a) auto
    from decode_token_sound [OF this] obtain q where
      q: "walk t ?top q cur" "q = stream_bits s (length q)"
         "s1 = s\<lparr>m_offset_s := m_offset_s s + length q\<rparr>"
      by blast
    show ?thesis
    proof (cases "cur = 0")
      case True
      with "1.prems" dt have "printed = printed0 @ [0]" "r = Inr s1"
        by (subst (asm) stream_decode_loop.simps, simp)+
      then have p: "printed = printed0 @ [0]" and r: "r = Inr s1" by simp_all
      have l: "list_all2 (walk t ?top) [q] [0]" using q(1) True by simp
      have c: "concat [q] = stream_bits s (length (concat [q]))" using q(2) by simp
      have b: "0 \<notin> set (butlast [0::nat])" by simp
      have e: "case r of Inr s' \<Rightarrow> [0::nat] \<noteq> [] \<and> last [0::nat] = 0 \<and>
                        s' = s\<lparr>m_offset_s := m_offset_s s + length (concat [q])\<rparr>
            | Inl f \<Rightarrow> 0 \<notin> set [0::nat]"
        using q(3) by (simp add: r)
      from p l c b e show ?thesis by blast
    next
      case False
      with "1.prems" dt have "stream_decode_loop s1 t (printed0 @ [cur]) = (printed, r)"
        by (subst (asm) stream_decode_loop.simps) simp
      from "1.IH" [OF dt refl False this] obtain new paths where
        n: "printed = (printed0 @ [cur]) @ new"
           "list_all2 (walk t ?top) paths new"
           "concat paths = stream_bits s1 (length (concat paths))"
           "0 \<notin> set (butlast new)"
           "case r of Inr s' \<Rightarrow> new \<noteq> [] \<and> last new = 0 \<and>
                        s' = s1\<lparr>m_offset_s := m_offset_s s1 + length (concat paths)\<rparr>
            | Inl f \<Rightarrow> 0 \<notin> set new"
        by blast
      have c: "concat (q # paths) = stream_bits s (length (concat (q # paths)))"
        using q(2) n(3) by (simp add: stream_bits_add q(3) [symmetric])
      have b: "0 \<notin> set (butlast (cur # new))" using False n(4) by simp
      have l: "list_all2 (walk t ?top) (q # paths) (cur # new)" using q(1) n(2) by simp
      have e: "case r of Inr s' \<Rightarrow> cur # new \<noteq> [] \<and> last (cur # new) = 0 \<and>
                        s' = s\<lparr>m_offset_s := m_offset_s s + length (concat (q # paths))\<rparr>
            | Inl f \<Rightarrow> 0 \<notin> set (cur # new)"
        using n(5) False by (cases r) (simp_all add: q(3) add.assoc)
      have p: "printed = printed0 @ (cur # new)" using n(1) by simp
      from p l c b e show ?thesis by blast
    qed
  qed
qed

text \<open>
  The converse, for a stream that holds the paths \<open>code k\<close> of a list of tokens \<open>ks\<close> with a
  token 0 among them: the loop prints the tokens up to the first 0 and stops there.
\<close>

lemma stream_decode_loop_complete:
  assumes "\<And>k. k \<in> set ks \<Longrightarrow> path_to t (m_top t mod UINT32_MOD) (code k) k \<and> code k \<noteq> []"
    and "0 \<in> set ks"
    and "concat (map code ks) = stream_bits s (length (concat (map code ks)))"
    and "m_offset_s s + length (concat (map code ks)) \<le> 8 * STREAM_BUFFER_BYTES"
  shows "\<exists>s'. stream_decode_loop s t printed0 = (printed0 @ takeWhile (\<lambda>k. k \<noteq> 0) ks @ [0], Inr s')"
  using assms
proof (induction ks arbitrary: s printed0)
  case Nil
  then show ?case by simp
next
  case (Cons k ks)
  let ?top = "m_top t mod UINT32_MOD"
  let ?q = "code k"
  let ?s1 = "s\<lparr>m_offset_s := m_offset_s s + length ?q\<rparr>"
  have pk: "path_to t ?top ?q k" "?q \<noteq> []" using Cons.prems(1) [of k] by simp_all
  from path_to_walk [OF pk] have w: "walk t ?top ?q k"
    and ins: "\<forall>n. 0 < n \<and> n \<le> length ?q \<longrightarrow> descend t ?top (take n ?q) < FREQ_TREE_MAX_NODES"
    by simp_all
  have split: "stream_bits s (length ?q + length (concat (map code ks))) =
      stream_bits s (length ?q) @ stream_bits ?s1 (length (concat (map code ks)))"
    by (rule stream_bits_add)
  from Cons.prems(3) have eq: "?q @ concat (map code ks) =
      stream_bits s (length ?q) @ stream_bits ?s1 (length (concat (map code ks)))"
    using split by simp
  have "length ?q = length (stream_bits s (length ?q))" by (simp add: stream_bits_def)
  with eq have q: "?q = stream_bits s (length ?q)"
    and rest: "concat (map code ks) = stream_bits ?s1 (length (concat (map code ks)))"
    by (simp_all add: append_eq_append_conv)
  have cap: "m_offset_s s + length ?q \<le> 8 * STREAM_BUFFER_BYTES" using Cons.prems(4) by simp
  have dt: "decode_token s t ?top = Inr (k, ?s1)"
    by (rule decode_token_complete [OF w q cap path_to_inside [OF pk(1)] ins])
  show ?case
  proof (cases "k = 0")
    case True
    with dt show ?thesis by (subst stream_decode_loop.simps) simp
  next
    case False
    with Cons.prems(2) have "0 \<in> set ks" by simp
    moreover have "m_offset_s ?s1 + length (concat (map code ks)) \<le> 8 * STREAM_BUFFER_BYTES"
      using Cons.prems(4) by simp
    ultimately obtain s' where
      "stream_decode_loop ?s1 t (printed0 @ [k]) =
         ((printed0 @ [k]) @ takeWhile (\<lambda>k. k \<noteq> 0) ks @ [0], Inr s')"
      using Cons.IH [of ?s1 "printed0 @ [k]"] Cons.prems(1) rest by auto
    with dt False show ?thesis by (subst stream_decode_loop.simps) simp
  qed
qed

section \<open>Counting and encoding bytes\<close>

lemma accumulate_loop_counts:
  assumes "tree_shape t" "char_signed \<longrightarrow> (\<forall>c\<in>set pData. unat c < 128)"
    "sum_list (m_count t) + length pData < SIZE_MOD"
  shows "\<exists>t'. accumulate_loop char_signed t pData = Inr t' \<and>
           m_left t' = m_left t \<and> m_right t' = m_right t \<and> m_top t' = m_top t \<and>
           length (m_count t') = length (m_count t) \<and>
           (\<forall>k<FREQ_TREE_MAX_NODES. m_count t' ! k = m_count t ! k + count_list (map unat pData) k) \<and>
           sum_list (m_count t') = sum_list (m_count t) + length pData"
  using assms
proof (induction pData arbitrary: t)
  case Nil
  then show ?case by simp
next
  case (Cons c pData)
  let ?i = "unat c"
  let ?C = "m_count t"
  let ?t = "t\<lparr>m_count := ?C[?i := (?C ! ?i + 1) mod SIZE_MOD]\<rparr>"
  have "?i < 256" using unsigned_less [of c, where ?'a = nat] by simp
  then have i: "?i < length ?C" using Cons.prems(1) by (simp add: tree_shape_def consts_defs)
  have "?C ! ?i \<le> sum_list ?C" using i by (rule count_le_sum)
  with Cons.prems(3) have nw: "Suc (?C ! ?i) mod SIZE_MOD = Suc (?C ! ?i)" by simp
  have sm: "sum_list (m_count ?t) = sum_list ?C + 1"
    using i \<open>?C ! ?i \<le> sum_list ?C\<close> by (simp add: nw sum_list_update)
  have ok: "\<not> (char_signed \<and> 128 \<le> ?i)" using Cons.prems(2) by auto
  have "tree_shape ?t" using Cons.prems(1) by (simp add: tree_shape_def)
  moreover have "char_signed \<longrightarrow> (\<forall>c\<in>set pData. unat c < 128)" using Cons.prems(2) by simp
  moreover have "sum_list (m_count ?t) + length pData < SIZE_MOD" using Cons.prems(3) sm by simp
  ultimately obtain t' where t': "accumulate_loop char_signed ?t pData = Inr t'"
    "m_left t' = m_left ?t" "m_right t' = m_right ?t" "m_top t' = m_top ?t"
    "length (m_count t') = length (m_count ?t)"
    "\<forall>k<FREQ_TREE_MAX_NODES. m_count t' ! k = m_count ?t ! k + count_list (map unat pData) k"
    "sum_list (m_count t') = sum_list (m_count ?t) + length pData"
    using Cons.IH [of ?t] by blast
  have "accumulate_loop char_signed t (c # pData) = Inr t'" using t'(1) ok by simp
  moreover have "\<forall>k<FREQ_TREE_MAX_NODES. m_count t' ! k = ?C ! k + count_list (map unat (c # pData)) k"
  proof (intro allI impI)
    fix k assume k: "k < FREQ_TREE_MAX_NODES"
    then have "k < length ?C" using Cons.prems(1) by (simp add: tree_shape_def)
    then have "m_count ?t ! k = ?C ! k + (if ?i = k then 1 else 0)"
      by (simp add: nw nth_list_update)
    with t'(6) k show "m_count t' ! k = ?C ! k + count_list (map unat (c # pData)) k" by simp
  qed
  ultimately show ?case using t'(2-5,7) sm by simp
qed

lemma freq_tree_init_fresh: "fresh_tree (freq_tree_init t)"
  by (simp add: fresh_tree_def tree_shape_def freq_tree_init_def)

lemma sum_list_replicate_0 [simp]: "sum_list (replicate n (0::nat)) = 0"
  by (induction n) simp_all

text \<open>The tree after \<open>freq_tree_init\<close> and one \<open>freq_tree_accumulate\<close> over \<open>pData\<close>.\<close>

lemma accumulate_fresh:
  assumes "char_signed \<longrightarrow> (\<forall>c\<in>set pData. unat c < 128)" "length pData < UINT32_MOD"
  shows "\<exists>t'. freq_tree_accumulate char_signed (freq_tree_init t) pData = Inr t' \<and> fresh_tree t' \<and>
           (\<forall>k<FREQ_TREE_MAX_NODES. m_count t' ! k = count_list (map unat pData) k) \<and>
           sum_list (m_count t') = length pData"
proof -
  let ?t = "freq_tree_init t"
  have fr: "fresh_tree ?t" by (rule freq_tree_init_fresh)
  have z: "m_count ?t = replicate FREQ_TREE_MAX_NODES 0" by (simp add: freq_tree_init_def)
  have "sum_list (m_count ?t) + length pData < SIZE_MOD"
    using assms(2) by (simp add: z consts_defs)
  with accumulate_loop_counts [of ?t char_signed pData] fr assms(1)
  obtain t' where t': "accumulate_loop char_signed ?t pData = Inr t'"
    "m_left t' = m_left ?t" "m_right t' = m_right ?t"
    "length (m_count t') = length (m_count ?t)"
    "\<forall>k<FREQ_TREE_MAX_NODES. m_count t' ! k = m_count ?t ! k + count_list (map unat pData) k"
    "sum_list (m_count t') = sum_list (m_count ?t) + length pData"
    by (auto simp: fresh_tree_def)
  have cnt: "\<forall>k<FREQ_TREE_MAX_NODES. m_count t' ! k = count_list (map unat pData) k"
    using t'(5) by (simp add: z)
  have "\<And>k. TOKEN_SIZE \<le> k \<Longrightarrow> count_list (map unat pData) k = 0"
  proof -
    fix k assume "TOKEN_SIZE \<le> k"
    have "k \<notin> set (map unat pData)"
    proof
      assume "k \<in> set (map unat pData)"
      then obtain c where "k = unat (c :: u8)" by auto
      with unsigned_less [of c, where ?'a = nat] \<open>TOKEN_SIZE \<le> k\<close> show False by (simp add: TOKEN_SIZE_def)
    qed
    then show "count_list (map unat pData) k = 0" by (simp add: count_list_0_iff)
  qed
  with cnt fr t'(2-4) have "fresh_tree t'"
    by (simp add: fresh_tree_def tree_shape_def)
  moreover have "freq_tree_accumulate char_signed ?t pData = Inr t'"
    using t'(1) assms(2) by (simp add: freq_tree_accumulate_def)
  moreover have "sum_list (m_count t') = length pData" using t'(6) by (simp add: z)
  ultimately show ?thesis using cnt by blast
qed

lemma tokens_counted_data:
  assumes "\<forall>k<FREQ_TREE_MAX_NODES. m_count t ! k = count_list (map unat pData) k"
  shows "tokens_counted t = unat ` set (pData :: u8 list)"
proof -
  have lt: "\<And>c :: u8. unat c < TOKEN_SIZE"
    using unsigned_less [where ?'a = nat and ?'b = 8] by (simp add: TOKEN_SIZE_def)
  have pos: "\<And>k. (0 < count_list (map unat pData) k) = (k \<in> unat ` set pData)"
    using count_list_0_iff [of "map unat pData"] by (simp add: neq0_conv [symmetric] del: neq0_conv)
  show ?thesis
  proof (intro set_eqI iffI)
    fix k assume "k \<in> tokens_counted t"
    then have "k < TOKEN_SIZE" "0 < m_count t ! k" by (simp_all add: tokens_counted_def)
    with assms have "0 < count_list (map unat pData) k" by (simp add: consts_defs)
    then show "k \<in> unat ` set pData" by (simp only: pos)
  next
    fix k assume k: "k \<in> unat ` set pData"
    then have "k < TOKEN_SIZE" using lt by auto
    moreover from k have "0 < count_list (map unat pData) k" by (simp only: pos)
    ultimately show "k \<in> tokens_counted t"
      using assms by (simp add: tokens_counted_def consts_defs)
  qed
qed

subsection \<open>Copying a code to the stream\<close>

lemma read_encoded_bit_ok:
  "pos < 8 * MAX_ENCODING_TABLE_BYTES \<Longrightarrow>
   read_encoded_bit enc pos = Inr (of_bool (bit_at (m_packedData enc) pos))"
  by (simp add: read_encoded_bit_def read_bit_word bit_at_def)

lemma encode_token_ok:
  "start + n \<le> 8 * MAX_ENCODING_TABLE_BYTES \<Longrightarrow>
   m_offset_s s + n \<le> 8 * STREAM_BUFFER_BYTES \<Longrightarrow>
   encode_token s enc start (start + n) =
     Inr (append_bits s (map (bit_at (m_packedData enc)) [start ..< start + n]))"
proof (induction n arbitrary: s start)
  case 0
  then show ?case by (subst encode_token.simps) simp
next
  case (Suc n)
  let ?b = "bit_at (m_packedData enc) start"
  have rd: "read_encoded_bit enc start = Inr (of_bool ?b)"
    using Suc.prems(1) by (intro read_encoded_bit_ok) simp
  have wr: "stream_write_bit s (of_bool ?b) = Inr (append_bits s [?b])"
    using Suc.prems(2) by (intro stream_write_bit_ok) simp
  have nx: "Suc start mod UINT32_MOD = Suc start"
    using Suc.prems(1) by (simp add: consts_defs)
  define s1 where "s1 = append_bits s [?b]"
  have o1: "m_offset_s s1 = Suc (m_offset_s s)" by (simp add: s1_def)
  have "encode_token s enc start (start + Suc n) = encode_token s1 enc (Suc start) (start + Suc n)"
    by (subst encode_token.simps) (simp add: rd wr nx s1_def [symmetric] del: append_bits.simps)
  also have "\<dots> = encode_token s1 enc (Suc start) (Suc start + n)" by simp
  also have "\<dots> = Inr (append_bits s1 (map (bit_at (m_packedData enc)) [Suc start ..< Suc start + n]))"
    using Suc.prems by (intro Suc.IH) (simp_all add: o1)
  also have "append_bits s1 (map (bit_at (m_packedData enc)) [Suc start ..< Suc start + n]) =
      append_bits s (?b # map (bit_at (m_packedData enc)) [Suc start ..< Suc start + n])"
    by (simp add: s1_def)
  also have "?b # map (bit_at (m_packedData enc)) [Suc start ..< Suc start + n] =
      map (bit_at (m_packedData enc)) [start ..< start + Suc n]"
    by (simp add: upt_conv_Cons del: upt_Suc)
  finally show ?case .
qed

lemma encode_loop_ok:
  assumes "\<forall>c\<in>set pData. m_offset enc ! unat c + m_bitcount enc ! unat c \<le> 8 * MAX_ENCODING_TABLE_BYTES"
    "m_offset_s s + length (concat (map (\<lambda>c. code_bits enc (unat c)) pData)) \<le> 8 * STREAM_BUFFER_BYTES"
  shows "encode_loop s pData enc = Inr (append_bits s (concat (map (\<lambda>c. code_bits enc (unat c)) pData)))"
  using assms
proof (induction pData arbitrary: s)
  case Nil
  then show ?case by simp
next
  case (Cons c pData)
  let ?o = "m_offset enc ! unat c" and ?n = "m_bitcount enc ! unat c"
  have rng: "?o + ?n \<le> 8 * MAX_ENCODING_TABLE_BYTES" using Cons.prems(1) by simp
  then have m: "?o mod UINT32_MOD = ?o" "(?o + ?n) mod UINT32_MOD = ?o + ?n"
    by (simp_all add: consts_defs)
  have len: "length (code_bits enc (unat c)) = ?n" by (simp add: code_bits_def)
  have "encode_token s enc ?o (?o + ?n) = Inr (append_bits s (code_bits enc (unat c)))"
    unfolding code_bits_def using rng Cons.prems(2) len by (intro encode_token_ok) simp_all
  moreover have "encode_loop (append_bits s (code_bits enc (unat c))) pData enc =
      Inr (append_bits (append_bits s (code_bits enc (unat c)))
             (concat (map (\<lambda>c. code_bits enc (unat c)) pData)))"
    using Cons.prems by (intro Cons.IH) (simp_all add: add.assoc)
  ultimately show ?case by (simp add: m Let_def append_bits_append)
qed

section \<open>The build on the nodes that count\<close>

text \<open>
  The scans of \<open>generate_huffman\<close> only see the nodes with a count, a handful among 511.
  \<open>forest_of t n F\<close> lists them: each entry of \<open>F\<close> is such a node below \<open>n\<close>, its count
  and the tree its links spell; every other node below \<open>n\<close> has count 0. \<open>merge_all\<close>
  replays the loop on that list, so that a build on a given table is a short computation.
\<close>

type_synonym forest = "(nat \<times> nat \<times> htree) list"

definition forest_of :: "FreqTree \<Rightarrow> nat \<Rightarrow> forest \<Rightarrow> bool" where
  "forest_of t n F \<longleftrightarrow>
     tree_shape t \<and> n \<le> FREQ_TREE_MAX_NODES \<and> distinct (map fst F) \<and>
     (\<forall>(i, v, tr)\<in>set F. i < n \<and> v \<noteq> 0 \<and> m_count t ! i = v \<and>
         tree_at (m_left t) (m_right t) i tr) \<and>
     (\<forall>j<n. j \<notin> fst ` set F \<longrightarrow> m_count t ! j = 0)"

definition before :: "nat \<times> nat \<times> htree \<Rightarrow> nat \<times> nat \<times> htree \<Rightarrow> bool" where
  "before x y \<longleftrightarrow> fst (snd x) < fst (snd y) \<or> (fst (snd x) = fst (snd y) \<and> fst x < fst y)"

fun smallest :: "forest \<Rightarrow> (nat \<times> nat \<times> htree) option" where
  "smallest [] = None"
| "smallest (x # xs) =
     (case smallest xs of None \<Rightarrow> Some x | Some y \<Rightarrow> if before y x then Some y else Some x)"

definition without :: "nat \<Rightarrow> forest \<Rightarrow> forest" where
  "without i F = filter (\<lambda>y. fst y \<noteq> i) F"

definition weight :: "forest \<Rightarrow> nat" where
  "weight F = sum_list (map (\<lambda>x. fst (snd x)) F)"

lemma smallest_None: "(smallest F = None) = (F = [])"
  by (induction F) (auto split: option.splits)

lemma smallest_mem: "smallest F = Some x \<Longrightarrow> x \<in> set F"
  by (induction F arbitrary: x) (auto split: option.splits if_splits)

lemma smallest_least: "smallest F = Some x \<Longrightarrow> y \<in> set F \<Longrightarrow> \<not> before y x"
proof (induction F arbitrary: x)
  case Nil
  then show ?case by simp
next
  case (Cons z F)
  show ?case
  proof (cases "smallest F")
    case None
    then have "F = []" by (simp add: smallest_None)
    with Cons.prems show ?thesis by (auto simp: before_def)
  next
    case (Some m)
    note ih = Cons.IH [OF Some]
    show ?thesis
    proof (cases "before m z")
      case True
      with Some Cons.prems(1) have x: "x = m" by simp
      from Cons.prems(2) have "y = z \<or> y \<in> set F" by simp
      then show ?thesis
      proof
        assume "y = z"
        with True x show ?thesis by (auto simp: before_def)
      next
        assume "y \<in> set F"
        with ih x show ?thesis by simp
      qed
    next
      case False
      with Some Cons.prems(1) have x: "x = z" by simp
      from Cons.prems(2) have "y = z \<or> y \<in> set F" by simp
      then show ?thesis
      proof
        assume "y = z"
        with x show ?thesis by (simp add: before_def)
      next
        assume "y \<in> set F"
        from ih [OF this] False x show ?thesis by (auto simp: before_def)
      qed
    qed
  qed
qed

lemma without_set [simp]: "set (without i F) = {y \<in> set F. fst y \<noteq> i}"
  by (auto simp: without_def)

lemma without_distinct: "distinct (map fst F) \<Longrightarrow> distinct (map fst (without i F))"
  by (simp add: without_def distinct_map_filter)

lemma without_shorter: "x \<in> set F \<Longrightarrow> length (without (fst x) F) < length F"
  unfolding without_def by (rule length_filter_less) simp_all

lemma without_length: "length (without i F) \<le> length F"
  by (simp add: without_def)

lemma weight_without:
  "distinct (map fst F) \<Longrightarrow> x \<in> set F \<Longrightarrow> weight F = fst (snd x) + weight (without (fst x) F)"
proof (induction F)
  case Nil
  then show ?case by simp
next
  case (Cons z F)
  show ?case
  proof (cases "x = z")
    case True
    from Cons.prems(1) have "fst z \<notin> fst ` set F" by simp
    then have "\<forall>y\<in>set F. fst y \<noteq> fst z" by (metis image_eqI)
    then have "without (fst z) F = F" by (simp add: without_def)
    with True show ?thesis by (simp add: weight_def without_def)
  next
    case False
    with Cons.prems have x: "x \<in> set F" "fst z \<noteq> fst x" by auto
    with Cons.IH Cons.prems(1) show ?thesis by (simp add: weight_def without_def)
  qed
qed

function merge_all :: "forest \<Rightarrow> nat \<Rightarrow> forest \<times> nat" where
  "merge_all F n =
     (case smallest F of
        None \<Rightarrow> (F, n)
      | Some a \<Rightarrow>
          (case smallest (without (fst a) F) of
             None \<Rightarrow> ([a], n)
           | Some b \<Rightarrow>
               merge_all
                 ((n, (fst (snd a) + fst (snd b)) mod SIZE_MOD, Node (snd (snd a)) (snd (snd b)))
                    # without (fst b) (without (fst a) F))
                 (Suc n)))"
  by pat_completeness auto
termination
proof (relation "measure (\<lambda>(F, n). length F)")
  show "wf (measure (\<lambda>(F, n). length F))" by simp
next
  fix F :: forest and n :: nat and a b
  assume "smallest F = Some a" "smallest (without (fst a) F) = Some b"
  then have "a \<in> set F" "b \<in> set (without (fst a) F)" by (auto dest: smallest_mem)
  from without_shorter [OF this(1)] without_shorter [OF this(2)]
  show "(((n, (fst (snd a) + fst (snd b)) mod SIZE_MOD, Node (snd (snd a)) (snd (snd b)))
            # without (fst b) (without (fst a) F), Suc n), (F, n))
        \<in> measure (\<lambda>(F, n). length F)" by simp
qed

declare merge_all.simps [simp del]

lemma smallest_scan:
  assumes "forest_of t n F" "weight F < INVALID_TOKEN"
  shows "get_smallest_huffman t n = (case smallest F of None \<Rightarrow> INVALID_TOKEN | Some x \<Rightarrow> fst x)"
proof -
  from assms(1) have n: "n \<le> INVALID_TOKEN" using max_nodes_le_invalid
    by (simp add: forest_of_def)
  have ent: "\<And>i v tr. (i, v, tr) \<in> set F \<Longrightarrow> i < n \<and> v \<noteq> 0 \<and> m_count t ! i = v"
    using assms(1) by (auto simp: forest_of_def)
  have rest: "\<And>j. j < n \<Longrightarrow> m_count t ! j \<noteq> 0 \<Longrightarrow> \<exists>w tr. (j, w, tr) \<in> set F"
    using assms(1) by (fastforce simp: forest_of_def)
  have small: "\<And>x. x \<in> set F \<Longrightarrow> fst (snd x) < INVALID_TOKEN"
  proof -
    fix x assume "x \<in> set F"
    then have "fst (snd x) \<le> weight F"
      unfolding weight_def by (intro member_le_sum_list) auto
    with assms(2) show "fst (snd x) < INVALID_TOKEN" by simp
  qed
  show ?thesis
  proof (cases "smallest F")
    case None
    then have "F = []" by (simp add: smallest_None)
    with rest have "\<forall>j<n. \<not> visible t j" by (auto simp: visible_def)
    with None show ?thesis by (simp add: get_smallest_huffman_none [OF n])
  next
    case (Some x)
    obtain i v tr where x: "x = (i, v, tr)" by (cases x) auto
    from smallest_mem [OF Some] have mem: "(i, v, tr) \<in> set F" by (simp add: x)
    from ent [OF mem] small [OF smallest_mem [OF Some]]
    have i: "i < n" "visible t i" "m_count t ! i = v" by (simp_all add: visible_def x)
    have cmp: "v \<le> m_count t ! j \<and> (j < i \<longrightarrow> v < m_count t ! j)" if "j < n" "visible t j" for j
    proof -
      from that rest [of j] obtain w tr' where y: "(j, w, tr') \<in> set F"
        by (auto simp: visible_def)
      from smallest_least [OF Some y] have "\<not> before (j, w, tr') (i, v, tr)" by (simp add: x)
      moreover from ent [OF y] have "m_count t ! j = w" by simp
      ultimately show ?thesis by (auto simp: before_def)
    qed
    have "get_smallest_huffman t n = i"
      using n i(1,2) cmp i(1) by (intro get_smallest_huffman_eqI) (auto simp: i(3))
    with Some show ?thesis by (simp add: x)
  qed
qed

lemma forest_hide:
  assumes "forest_of t n F"
  shows "forest_of (hide_node t a) n (without a F)"
proof -
  from assms have len: "length (m_count t) = FREQ_TREE_MAX_NODES" "n \<le> FREQ_TREE_MAX_NODES"
    by (simp_all add: forest_of_def tree_shape_def)
  have e: "\<forall>(i, v, tr)\<in>set (without a F). i < n \<and> v \<noteq> 0 \<and> m_count (hide_node t a) ! i = v \<and>
      tree_at (m_left (hide_node t a)) (m_right (hide_node t a)) i tr"
    using assms by (auto simp: forest_of_def hide_node_count)
  have z: "\<forall>j<n. j \<notin> fst ` set (without a F) \<longrightarrow> m_count (hide_node t a) ! j = 0"
  proof (intro allI impI)
    fix j assume j: "j < n" "j \<notin> fst ` set (without a F)"
    show "m_count (hide_node t a) ! j = 0"
    proof (cases "j = a")
      case True
      with j(1) len show ?thesis by (simp add: hide_node_count)
    next
      case False
      with j(2) have "j \<notin> fst ` set F" by force
      with assms j(1) False show ?thesis by (simp add: forest_of_def hide_node_count)
    qed
  qed
  show ?thesis
    unfolding forest_of_def
  proof (intro conjI)
    show "tree_shape (hide_node t a)" using assms by (simp add: forest_of_def)
    show "n \<le> FREQ_TREE_MAX_NODES" by (rule len(2))
    show "distinct (map fst (without a F))"
      using assms by (intro without_distinct) (simp add: forest_of_def)
  qed (rule e, rule z)
qed

lemma forest_combine:
  assumes F: "forest_of t n F" and n: "n < FREQ_TREE_MAX_NODES"
    and ab: "a < n" "b < n"
    and tr: "tree_at (m_left t) (m_right t) a l" "tree_at (m_left t) (m_right t) b r"
    and v: "(v1 + v2) mod SIZE_MOD \<noteq> 0"
  shows "forest_of (combine_nodes t n v1 v2 a b) (Suc n) ((n, (v1 + v2) mod SIZE_MOD, Node l r) # F)"
proof -
  let ?t = "combine_nodes t n v1 v2 a b"
  let ?L = "m_left t" and ?R = "m_right t"
  from F have len: "length (m_count t) = FREQ_TREE_MAX_NODES" "length ?L = FREQ_TREE_MAX_NODES"
    "length ?R = FREQ_TREE_MAX_NODES"
    by (simp_all add: forest_of_def tree_shape_def)
  from F have keys: "\<And>x. x \<in> set F \<Longrightarrow> fst x < n" by (auto simp: forest_of_def)
  then have fresh: "n \<notin> fst ` set F" by auto
  have "a < INVALID_TOKEN" using ab(1) n max_nodes_le_invalid by simp
  then have top: "tree_at (?L[n := a]) (?R[n := b]) n (Node l r)"
    using n ab tr len by (intro tree_at.node) (simp_all add: tree_at_update)
  have old: "\<forall>(i, v, tr)\<in>set F. i < Suc n \<and> v \<noteq> 0 \<and> m_count ?t ! i = v \<and>
      tree_at (m_left ?t) (m_right ?t) i tr"
  proof (clarify)
    fix i v tr assume m: "(i, v, tr) \<in> set F"
    with F have "i < n" "v \<noteq> 0" "m_count t ! i = v" "tree_at ?L ?R i tr"
      by (auto simp: forest_of_def)
    then show "i < Suc n \<and> v \<noteq> 0 \<and> m_count ?t ! i = v \<and> tree_at (m_left ?t) (m_right ?t) i tr"
      by (simp add: combine_nodes_count tree_at_update)
  qed
  have zero: "\<forall>j<Suc n. j \<notin> fst ` set ((n, (v1 + v2) mod SIZE_MOD, Node l r) # F) \<longrightarrow>
      m_count ?t ! j = 0"
  proof (intro allI impI)
    fix j assume "j < Suc n" "j \<notin> fst ` set ((n, (v1 + v2) mod SIZE_MOD, Node l r) # F)"
    then have "j < n" "j \<notin> fst ` set F" by auto
    with F show "m_count ?t ! j = 0" by (simp add: forest_of_def combine_nodes_count)
  qed
  have d: "distinct (map fst ((n, (v1 + v2) mod SIZE_MOD, Node l r) # F))"
    using F fresh by (simp add: forest_of_def)
  have c: "m_count ?t ! n = (v1 + v2) mod SIZE_MOD"
    using n len by (simp add: combine_nodes_count)
  have new: "\<forall>(i, v, tr)\<in>set ((n, (v1 + v2) mod SIZE_MOD, Node l r) # F).
      i < Suc n \<and> v \<noteq> 0 \<and> m_count ?t ! i = v \<and> tree_at (m_left ?t) (m_right ?t) i tr"
    using old v c top by simp
  show ?thesis
    unfolding forest_of_def
  proof (intro conjI)
    show "tree_shape ?t" using F by (simp add: forest_of_def)
    show "Suc n \<le> FREQ_TREE_MAX_NODES" using n by simp
  qed (rule d, rule new, rule zero)
qed

text \<open>The loop of \<open>generate_huffman\<close> does what \<open>merge_all\<close> does on the list.\<close>

lemma merge_all_refines:
  assumes "forest_of t n F" "weight F < INVALID_TOKEN" "n + length F \<le> Suc FREQ_TREE_MAX_NODES"
  shows "\<exists>t'. generate_huffman_loop t n = Inr (t', snd (merge_all F n)) \<and> tree_shape t' \<and>
           (\<forall>(i, v, tr)\<in>set (fst (merge_all F n)). tree_at (m_left t') (m_right t') i tr)"
  using assms
proof (induction F n arbitrary: t rule: merge_all.induct)
  case (1 F n)
  note F = \<open>forest_of t n F\<close>
  then have sh: "tree_shape t" and n: "n \<le> FREQ_TREE_MAX_NODES" and d: "distinct (map fst F)"
    by (simp_all add: forest_of_def)
  have inv: "\<And>i. i < n \<Longrightarrow> i \<noteq> INVALID_TOKEN"
    using n max_nodes_le_invalid by auto
  have ent: "\<And>x. x \<in> set F \<Longrightarrow> fst x < n \<and> fst (snd x) \<noteq> 0 \<and> m_count t ! fst x = fst (snd x) \<and>
      tree_at (m_left t) (m_right t) (fst x) (snd (snd x))"
    using F by (auto simp: forest_of_def)
  note s1 = smallest_scan [OF F "1.prems"(2)]
  show ?case
  proof (cases "smallest F")
    case None
    with s1 have "generate_huffman_loop t n = Inr (t, n)"
      by (simp add: generate_huffman_loop_stop1)
    moreover from None have "merge_all F n = (F, n)" "F = []"
      by (simp_all add: merge_all.simps smallest_None)
    ultimately show ?thesis using sh by simp
  next
    case a: (Some a)
    from smallest_mem [OF a] have am: "a \<in> set F" .
    let ?ia = "fst a" and ?va = "fst (snd a)"
    let ?F1 = "without ?ia F"
    let ?t1 = "hide_node t ?ia"
    from s1 a have ga: "get_smallest_huffman t n = ?ia" by simp
    from ent [OF am] inv have ia: "?ia < n" "?ia \<noteq> INVALID_TOKEN" "m_count t ! ?ia = ?va" by auto
    have F1: "forest_of ?t1 n ?F1" by (rule forest_hide [OF F])
    have w1: "weight F = ?va + weight ?F1" by (rule weight_without [OF d am])
    with "1.prems"(2) have w1': "weight ?F1 < INVALID_TOKEN" by simp
    note s2 = smallest_scan [OF F1 w1']
    show ?thesis
    proof (cases "smallest ?F1")
      case None
      with s2 have "get_smallest_huffman ?t1 n = INVALID_TOKEN" by simp
      with ga ia(2) have "generate_huffman_loop t n = Inr (?t1, n)"
        by (intro generate_huffman_loop_stop2) simp_all
      moreover from a None have "merge_all F n = ([a], n)" by (simp add: merge_all.simps)
      ultimately show ?thesis using sh ent [OF am] by (simp add: case_prod_beta)
    next
      case b: (Some b)
      from smallest_mem [OF b] have bm1: "b \<in> set ?F1" .
      then have bm: "b \<in> set F" "fst b \<noteq> ?ia" by simp_all
      let ?ib = "fst b" and ?vb = "fst (snd b)"
      let ?F2 = "without ?ib ?F1"
      let ?t2 = "hide_node ?t1 ?ib"
      let ?v = "(?va + ?vb) mod SIZE_MOD"
      let ?F' = "(n, ?v, Node (snd (snd a)) (snd (snd b))) # ?F2"
      let ?t' = "combine_nodes ?t2 n ?va ?vb ?ia ?ib"
      from s2 b have gb: "get_smallest_huffman ?t1 n = ?ib" by simp
      from ent [OF bm(1)] inv have ib: "?ib < n" "?ib \<noteq> INVALID_TOKEN" "m_count t ! ?ib = ?vb" by auto
      have cb: "m_count ?t1 ! ?ib = ?vb" using ib(3) bm(2) by (simp add: hide_node_count)
      have d1: "distinct (map fst ?F1)" by (rule without_distinct [OF d])
      have w2: "weight ?F1 = ?vb + weight ?F2" by (rule weight_without [OF d1 bm1])
      have sum: "?va + ?vb + weight ?F2 = weight F" using w1 w2 by simp
      with "1.prems"(2) have mod: "?v = ?va + ?vb" by (simp add: consts_defs)
      have nz: "?v \<noteq> 0" using mod ent [OF am] by simp
      have len2: "Suc (length ?F2) < length F"
        using without_shorter [OF am] without_shorter [OF bm1] by simp
      with "1.prems"(3) have n': "n < FREQ_TREE_MAX_NODES" by simp
      have F2: "forest_of ?t2 n ?F2" by (rule forest_hide [OF F1])
      have F': "forest_of ?t' (Suc n) ?F'"
        using ent [OF am] ent [OF bm(1)]
        by (intro forest_combine [OF F2 n' ia(1) ib(1) _ _ nz]) simp_all
      have "weight ?F' = weight F" using sum mod by (simp add: weight_def)
      with "1.prems"(2) have wF': "weight ?F' < INVALID_TOKEN" by simp
      have lF': "Suc n + length ?F' \<le> Suc FREQ_TREE_MAX_NODES"
        using len2 "1.prems"(3) by simp
      from "1.IH" [OF a b F' wF' lF'] obtain t'' where
        r: "generate_huffman_loop ?t' (Suc n) = Inr (t'', snd (merge_all ?F' (Suc n)))"
          "tree_shape t''"
          "\<forall>(i, v, tr)\<in>set (fst (merge_all ?F' (Suc n))). tree_at (m_left t'') (m_right t'') i tr"
        by blast
      have "generate_huffman_loop t n = generate_huffman_loop ?t' (Suc n)"
        using generate_huffman_loop_step [OF ga ia(2) gb ib(2) n'] by (simp add: ia(3) cb)
      moreover have "merge_all F n = merge_all ?F' (Suc n)"
        using a b by (subst merge_all.simps) simp
      ultimately show ?thesis using r by auto
    qed
  qed
qed

text \<open>
  For \<open>generate_huffman\<close> itself, from a tree as \<open>freq_tree_accumulate\<close> leaves it with the
  counts \<open>kvs\<close> (token and count) and no other.
\<close>

definition leaf_forest :: "(nat \<times> nat) list \<Rightarrow> forest" where
  "leaf_forest kvs = map (\<lambda>(k, v). (k, v, Leaf k)) kvs"

definition counts_are :: "FreqTree \<Rightarrow> (nat \<times> nat) list \<Rightarrow> bool" where
  "counts_are t kvs \<longleftrightarrow>
     distinct (map fst kvs) \<and>
     (\<forall>(k, v)\<in>set kvs. k < TOKEN_SIZE \<and> v \<noteq> 0 \<and> m_count t ! k = v) \<and>
     (\<forall>j<TOKEN_SIZE. j \<notin> fst ` set kvs \<longrightarrow> m_count t ! j = 0)"

lemma fresh_forest:
  assumes "fresh_tree t" "counts_are t kvs"
  shows "forest_of t TOKEN_SIZE (leaf_forest kvs)"
proof -
  have k: "map fst (leaf_forest kvs) = map fst kvs"
    by (simp add: leaf_forest_def case_prod_beta)
  have "\<forall>(i, v, tr)\<in>set (leaf_forest kvs). i < TOKEN_SIZE \<and> v \<noteq> 0 \<and> m_count t ! i = v \<and>
      tree_at (m_left t) (m_right t) i tr"
  proof (clarify)
    fix i v tr assume "(i, v, tr) \<in> set (leaf_forest kvs)"
    then have m: "(i, v) \<in> set kvs" "tr = Leaf i" by (auto simp: leaf_forest_def)
    with assms(2) have i: "i < TOKEN_SIZE" "v \<noteq> 0" "m_count t ! i = v"
      by (auto simp: counts_are_def)
    moreover have "tree_at (m_left t) (m_right t) i (Leaf i)"
      using assms(1) i(1) by (intro tree_at.leaf) (simp_all add: fresh_tree_def consts_defs)
    ultimately show "i < TOKEN_SIZE \<and> v \<noteq> 0 \<and> m_count t ! i = v \<and>
      tree_at (m_left t) (m_right t) i tr" using m(2) by simp
  qed
  moreover have "fst ` set (leaf_forest kvs) = fst ` set kvs"
    using k by (metis set_map)
  ultimately show ?thesis
    using assms unfolding forest_of_def counts_are_def
    by (simp add: k fresh_tree_def consts_defs)
qed

lemma generate_huffman_merge_all:
  assumes "fresh_tree t" "counts_are t kvs" "sum_list (map snd kvs) < INVALID_TOKEN"
    "merge_all (leaf_forest kvs) TOKEN_SIZE = ([(i, v, tr)], Suc i)"
  shows "\<exists>t'. generate_huffman t = Inr t' \<and> m_top t' = i \<and> tree_shape t' \<and>
           tree_at (m_left t') (m_right t') i tr"
proof -
  let ?F = "leaf_forest kvs"
  have F: "forest_of t TOKEN_SIZE ?F" by (rule fresh_forest [OF assms(1,2)])
  have "map (\<lambda>x. fst (snd x)) ?F = map snd kvs" by (simp add: leaf_forest_def case_prod_beta)
  then have w: "weight ?F < INVALID_TOKEN" using assms(3) by (simp add: weight_def)
  have "distinct (map fst kvs)" "fst ` set kvs \<subseteq> {..<TOKEN_SIZE}"
    using assms(2) by (auto simp: counts_are_def)
  then have "card (fst ` set kvs) = length kvs" "card (fst ` set kvs) \<le> card {..<TOKEN_SIZE}"
    by (metis distinct_card length_map set_map, intro card_mono, simp_all)
  then have l: "TOKEN_SIZE + length ?F \<le> Suc FREQ_TREE_MAX_NODES"
    by (simp add: leaf_forest_def consts_defs)
  from merge_all_refines [OF F w l] assms(4) obtain t' where
    "generate_huffman_loop t TOKEN_SIZE = Inr (t', Suc i)" "tree_shape t'"
    "tree_at (m_left t') (m_right t') i tr" by auto
  then show ?thesis by (simp add: generate_huffman_def tree_shape_def)
qed

section \<open>The calls of main\<close>

text \<open>
  \<open>main\<close> calls the functions above in a fixed order. \<open>huffman_tables\<close> is the middle of
  it, \<open>generate_huffman\<close> and then \<open>create_encodings\<close>, returning the tree, the table and the
  total that \<open>create_encodings\<close> prints. \<open>main_tables\<close> puts \<open>freq_tree_init\<close> and
  \<open>freq_tree_accumulate\<close> in front, and \<open>main_run\<close> is the whole of \<open>main\<close> on the data
  \<open>pData\<close>, returning the tokens that \<open>stream_decode\<close> prints. The three structures are
  locals of \<open>main\<close>; what their memory holds at the start is the parameters \<open>tree\<close>,
  \<open>enc\<close> and \<open>encodedStream\<close>.
\<close>

definition huffman_tables ::
  "EncodedTable \<Rightarrow> FreqTree \<Rightarrow> (fault + FreqTree \<times> EncodedTable \<times> nat) option" where
  "huffman_tables enc tree =
     (case generate_huffman tree of
        Inl f \<Rightarrow> Some (Inl f)
      | Inr t \<Rightarrow>
          (case create_encodings enc t of
             None \<Rightarrow> None
           | Some (Inl f) \<Rightarrow> Some (Inl f)
           | Some (Inr (enc', total_bitcount)) \<Rightarrow> Some (Inr (t, enc', total_bitcount))))"

definition main_tables ::
  "bool \<Rightarrow> FreqTree \<Rightarrow> EncodedTable \<Rightarrow> u8 list \<Rightarrow> (fault + FreqTree \<times> EncodedTable \<times> nat) option" where
  "main_tables char_signed tree enc pData =
     (case freq_tree_accumulate char_signed (freq_tree_init tree) pData of
        Inl f \<Rightarrow> Some (Inl f)
      | Inr t \<Rightarrow> huffman_tables enc t)"

definition main_run ::
  "bool \<Rightarrow> FreqTree \<Rightarrow> EncodedTable \<Rightarrow> Stream \<Rightarrow> u8 list \<Rightarrow> (fault + nat list) option" where
  "main_run char_signed tree enc encodedStream pData =
     (case main_tables char_signed tree enc pData of
        None \<Rightarrow> None
      | Some (Inl f) \<Rightarrow> Some (Inl f)
      | Some (Inr (t, enc', total_bitcount)) \<Rightarrow>
          (case stream_encode (stream_reset encodedStream) pData enc' of
             Inl f \<Rightarrow> Some (Inl f)
           | Inr s \<Rightarrow>
               (case stream_decode (stream_reset s) t of
                  (printed, Inl f) \<Rightarrow> Some (Inl f)
                | (printed, Inr s') \<Rightarrow> Some (Inr printed))))"

lemma huffman_tables_built:
  assumes "fresh_tree t" "sum_list (m_count t) < INVALID_TOKEN" "2 \<le> card (tokens_counted t)"
  shows "\<exists>t' tr. huffman_tables enc t =
             Some (Inr (t', built_table enc tr, total_bits (leaf_codes tr []))) \<and>
           m_left t' ! m_top t' \<noteq> INVALID_TOKEN \<and>
           tree_at (m_left t') (m_right t') (m_top t') tr \<and>
           distinct (leaves tr) \<and> set (leaves tr) = tokens_counted t"
proof -
  from generate_huffman_cover [OF assms] obtain t' where
    g: "generate_huffman t = Inr t'" "has_tree (m_left t') (m_right t') (m_top t')"
      "m_left t' ! m_top t' \<noteq> INVALID_TOKEN"
      "leaf_set (m_left t') (m_right t') (m_top t') = tokens_counted t"
    by blast
  from g(2) obtain tr where tr: "tree_at (m_left t') (m_right t') (m_top t') tr"
    "distinct (leaves tr)" "set (leaves tr) \<subseteq> {..<TOKEN_SIZE}"
    by (auto simp: has_tree_def)
  from leaf_set_tree [OF tr(1)] g(4) have "set (leaves tr) = tokens_counted t" by simp
  moreover have "huffman_tables enc t =
      Some (Inr (t', built_table enc tr, total_bits (leaf_codes tr [])))"
    by (simp add: huffman_tables_def g(1) create_encodings_tree [OF tr])
  ultimately show ?thesis using g(3) tr(1,2) by blast
qed

lemma huffman_tables_merge_all:
  assumes "fresh_tree t" "counts_are t kvs" "sum_list (map snd kvs) < INVALID_TOKEN"
    "merge_all (leaf_forest kvs) TOKEN_SIZE = ([(i, v, tr)], Suc i)"
    "distinct (leaves tr)" "set (leaves tr) \<subseteq> {..<TOKEN_SIZE}"
  shows "\<exists>t'. huffman_tables enc t =
             Some (Inr (t', built_table enc tr, total_bits (leaf_codes tr []))) \<and>
           m_top t' = i \<and> tree_at (m_left t') (m_right t') i tr"
proof -
  from generate_huffman_merge_all [OF assms(1-4)] obtain t' where
    g: "generate_huffman t = Inr t'" "m_top t' = i" "tree_at (m_left t') (m_right t') i tr"
    by blast
  from g(2,3) have "tree_at (m_left t') (m_right t') (m_top t') tr" by simp
  from create_encodings_tree [OF this assms(5,6)] g show ?thesis
    by (simp add: huffman_tables_def)
qed

lemma main_tables_built:
  assumes "char_signed \<longrightarrow> (\<forall>c\<in>set pData. unat c < 128)" "length pData < UINT32_MOD"
    "2 \<le> card (set pData)"
  shows "\<exists>t' tr. main_tables char_signed tree enc pData =
             Some (Inr (t', built_table enc tr, total_bits (leaf_codes tr []))) \<and>
           m_left t' ! m_top t' \<noteq> INVALID_TOKEN \<and>
           tree_at (m_left t') (m_right t') (m_top t') tr \<and>
           distinct (leaves tr) \<and> set (leaves tr) = unat ` set pData"
proof -
  from accumulate_fresh [OF assms(1,2)] obtain t where
    t: "freq_tree_accumulate char_signed (freq_tree_init tree) pData = Inr t" "fresh_tree t"
      "\<forall>k<FREQ_TREE_MAX_NODES. m_count t ! k = count_list (map unat pData) k"
      "sum_list (m_count t) = length pData"
    by blast
  have tc: "tokens_counted t = unat ` set pData" by (rule tokens_counted_data [OF t(3)])
  have "inj_on unat (set pData)" by (simp add: inj_on_def word_unat_eq_iff)
  then have "card (tokens_counted t) = card (set pData)" by (simp add: tc card_image)
  with assms(3) have c: "2 \<le> card (tokens_counted t)" by simp
  have s: "sum_list (m_count t) < INVALID_TOKEN" using assms(2) t(4) by (simp add: consts_defs)
  from huffman_tables_built [OF t(2) s c, of enc] show ?thesis
    by (simp add: main_tables_def t(1) tc)
qed

subsection \<open>Encoding, then decoding\<close>

lemma tree_at_inside: "tree_at L R i tr \<Longrightarrow> i < FREQ_TREE_MAX_NODES"
  by (erule tree_at.cases) simp_all

lemma encode_decode:
  assumes tr: "tree_at (m_left t) (m_right t) (m_top t) tr" "distinct (leaves tr)"
      "set (leaves tr) \<subseteq> {..<TOKEN_SIZE}" "m_left t ! m_top t \<noteq> INVALID_TOKEN"
    and enc: "length (m_packedData enc) = MAX_ENCODING_TABLE_BYTES" "set (m_packedData enc) \<subseteq> {0}"
    and str: "length (m_buffer s) = STREAM_BUFFER_BYTES" "set (m_buffer s) \<subseteq> {0}"
    and dat: "unat ` set pData \<subseteq> set (leaves tr)" "0 \<in> set pData" "length pData < UINT32_MOD"
    and fits: "sum_list (map (\<lambda>c. m_bitcount (built_table enc tr) ! unat c) pData)
                 \<le> 8 * STREAM_BUFFER_BYTES"
  shows "\<exists>s1 s2. stream_encode (stream_reset s) pData (built_table enc tr) = Inr s1 \<and>
           stream_decode (stream_reset s1) t =
             (takeWhile (\<lambda>k. k \<noteq> 0) (map unat pData) @ [0], Inr s2)"
proof -
  let ?E = "built_table enc tr"
  let ?cs = "leaf_codes tr []"
  let ?s0 = "stream_reset s"
  define code where "code k = the (map_of ?cs k)" for k
  define ks where "ks = map unat pData"
  define bits where "bits = concat (map code ks)"
  have z: "\<forall>b\<in>set (m_packedData enc). b = 0" using enc(2) by auto
  have d: "distinct (map fst ?cs)" using tr(2) by simp
  have mem: "(k, code k) \<in> set ?cs" if "k \<in> set ks" for k
  proof -
    from that dat(1) have "k \<in> set (leaves tr)" by (auto simp: ks_def)
    then have "k \<in> fst ` set ?cs" by (metis map_fst_leaf_codes set_map)
    then have "map_of ?cs k \<noteq> None" by (simp add: map_of_eq_None_iff)
    then obtain q where "map_of ?cs k = Some q" by blast
    then show ?thesis by (simp add: code_def map_of_SomeD)
  qed
  have cb: "code_bits ?E k = code k" if "k \<in> set ks" for k
    by (rule built_table_code_bits_zero [OF tr(2,3) mem [OF that] enc(1) z])
  have bc: "m_bitcount ?E ! k = length (code k)" if "k \<in> set ks" for k
    by (rule built_table_bitcount(1) [OF tr(2,3) mem [OF that]])
  have rng: "m_offset ?E ! k + m_bitcount ?E ! k \<le> 8 * MAX_ENCODING_TABLE_BYTES" if "k \<in> set ks" for k
  proof -
    have "m_offset ?E ! k = code_start ?cs k" by (rule built_table_offset [OF tr(2,3) mem [OF that]])
    with code_range [OF d mem [OF that]] bc [OF that] table_holds_codes'(1) [OF tr(2,3)]
    show ?thesis by simp
  qed
  have bits': "concat (map (\<lambda>c. code_bits ?E (unat c)) pData) = bits"
  proof -
    have m: "map (\<lambda>c. code_bits ?E (unat c)) pData = map (\<lambda>c. code (unat c)) pData"
      by (rule map_cong [OF refl]) (simp add: cb ks_def)
    have "concat (map (\<lambda>c. code_bits ?E (unat c)) pData) = concat (map (\<lambda>c. code (unat c)) pData)"
      by (simp only: m)
    also have "\<dots> = bits" by (simp add: bits_def ks_def comp_def)
    finally show ?thesis .
  qed
  have len: "length bits = sum_list (map (\<lambda>c. m_bitcount ?E ! unat c) pData)"
  proof -
    have m: "map (\<lambda>c. length (code (unat c))) pData = map (\<lambda>c. m_bitcount ?E ! unat c) pData"
      by (rule map_cong [OF refl]) (simp add: bc ks_def)
    have "length bits = sum_list (map (\<lambda>c. length (code (unat c))) pData)"
      by (simp add: bits_def ks_def length_concat comp_def)
    then show ?thesis by (simp only: m)
  qed
  with fits have cap: "length bits \<le> 8 * STREAM_BUFFER_BYTES" by simp
  have "encode_loop ?s0 pData ?E = Inr (append_bits ?s0 (concat (map (\<lambda>c. code_bits ?E (unat c)) pData)))"
    using rng cap by (intro encode_loop_ok) (simp_all add: bits' ks_def stream_reset_def)
  then have e: "stream_encode ?s0 pData ?E = Inr (append_bits ?s0 bits)"
    using dat(3) by (simp add: stream_encode_def bits')
  let ?s1 = "stream_reset (append_bits ?s0 bits)"
  have o1: "m_offset_s ?s1 = 0" "m_buffer ?s1 = m_buffer (append_bits ?s0 bits)"
    by (simp_all add: stream_reset_def)
  have sb: "bits = stream_bits ?s1 (length bits)"
  proof (rule nth_equalityI)
    show "length bits = length (stream_bits ?s1 (length bits))" by (simp add: stream_bits_def)
  next
    fix i assume i: "i < length bits"
    with cap str(1) have "i div 8 < length (m_buffer s)" by simp
    then have "\<not> bit_at (m_buffer s) i" by (rule zero_buffer_bit [OF str(2)])
    moreover have "m_offset_s ?s0 + length bits \<le> 8 * length (m_buffer ?s0)"
      using cap str(1) by (simp add: stream_reset_def)
    from bit_at_append_bits [OF this, of i]
    have "bit_at (m_buffer (append_bits ?s0 bits)) i = (bit_at (m_buffer s) i \<or> bits ! i)"
      using i by (simp add: stream_reset_def)
    ultimately show "bits ! i = stream_bits ?s1 (length bits) ! i"
      using i by (simp add: stream_bits_def o1)
  qed
  have top: "m_top t mod UINT32_MOD = m_top t"
    using tree_at_inside [OF tr(1)] by (simp add: consts_defs)
  have paths: "path_to t (m_top t mod UINT32_MOD) (code k) k \<and> code k \<noteq> []" if "k \<in> set ks" for k
  proof -
    from tree_paths [OF tr(1) mem [OF that]] have p: "path_to t (m_top t) (code k) k" by simp
    moreover have "code k \<noteq> []"
    proof
      assume "code k = []"
      with p have "is_leaf t (m_top t)" by simp
      with tr(4) show False by (simp add: is_leaf_def)
    qed
    ultimately show ?thesis by (simp add: top)
  qed
  have zero: "0 \<in> set ks" using dat(2) by (force simp: ks_def)
  have "concat (map code ks) = stream_bits ?s1 (length (concat (map code ks)))"
    using sb by (simp add: bits_def)
  moreover have "m_offset_s ?s1 + length (concat (map code ks)) \<le> 8 * STREAM_BUFFER_BYTES"
    using cap o1(1) unfolding bits_def by simp
  ultimately obtain s2 where
    "stream_decode_loop ?s1 t [] = ([] @ takeWhile (\<lambda>k. k \<noteq> 0) ks @ [0], Inr s2)"
    using stream_decode_loop_complete [of ks t code ?s1 "[]"] paths zero by blast
  then have "stream_decode ?s1 t = (takeWhile (\<lambda>k. k \<noteq> 0) (map unat pData) @ [0], Inr s2)"
    by (simp add: stream_decode_def ks_def)
  with e show ?thesis by blast
qed

subsection \<open>The total that the first pass returns\<close>



chapter \<open>The claims\<close>

section \<open>Inputs used as examples\<close>

text \<open>
  The structures of \<open>main\<close> are locals that nothing initialises before the \<open>init\<close> and
  \<open>reset\<close> calls. \<open>empty_table\<close> is the tree right after \<open>freq_tree_init\<close>;
  \<open>zero_table\<close> and \<open>zero_stream\<close> are a table and a stream whose memory happens to be
  zero, \<open>stale_table\<close> a table whose packed bytes are all 0xFF.
\<close>

definition empty_table :: FreqTree where
  "empty_table = freq_tree_init \<lparr>m_count = [], m_left = [], m_right = [], m_top = 0\<rparr>"

definition zero_table :: EncodedTable where
  "zero_table = \<lparr>m_packedData = replicate MAX_ENCODING_TABLE_BYTES 0, m_offset = [],
                  m_bitcount = [], m_currentOffset = 0\<rparr>"

definition stale_table :: EncodedTable where
  "stale_table = \<lparr>m_packedData = replicate MAX_ENCODING_TABLE_BYTES 255, m_offset = [],
                   m_bitcount = [], m_currentOffset = 0\<rparr>"

definition zero_stream :: Stream where
  "zero_stream = \<lparr>m_buffer = replicate STREAM_BUFFER_BYTES 0, m_offset_s = 0\<rparr>"

lemma empty_table_fields:
  "m_count empty_table = replicate FREQ_TREE_MAX_NODES 0"
  "m_left empty_table = replicate FREQ_TREE_MAX_NODES INVALID_TOKEN"
  "m_right empty_table = replicate FREQ_TREE_MAX_NODES INVALID_TOKEN"
  "m_top empty_table = FREQ_TREE_MAX_NODES"
  by (simp_all add: empty_table_def freq_tree_init_def)

lemma empty_table_fresh: "fresh_tree empty_table"
  by (simp add: fresh_tree_def tree_shape_def empty_table_fields)

lemma empty_table_count: "i < FREQ_TREE_MAX_NODES \<Longrightarrow> m_count empty_table ! i = 0"
  by (simp add: empty_table_fields)

section \<open>C9: an empty frequency table\<close>

lemma generate_huffman_no_counts:
  assumes "\<forall>i<TOKEN_SIZE. m_count t ! i = 0"
  shows "generate_huffman t = Inr (t\<lparr>m_top := TOKEN_SIZE - 1\<rparr>)"
proof -
  have "TOKEN_SIZE \<le> INVALID_TOKEN" by (simp add: consts_defs)
  then have "get_smallest_huffman t TOKEN_SIZE = INVALID_TOKEN"
    using assms by (simp add: get_smallest_huffman_none visible_def)
  then have "generate_huffman_loop t TOKEN_SIZE = Inr (t, TOKEN_SIZE)"
    by (rule generate_huffman_loop_stop1)
  then show ?thesis by (simp add: generate_huffman_def)
qed

text \<open>
  C9 (as amended). \<open>generate_huffman\<close> has no error to report: called on a frequency table
  with no nonzero entry it returns normally, the tree unchanged but for \<open>m_top\<close>, which
  becomes \<open>TOKEN_SIZE - 1\<close> (255), the leaf of the last token.
\<close>

theorem C9_empty_table_returns:
  assumes "\<forall>i<TOKEN_SIZE. m_count t ! i = 0"
  shows "generate_huffman t = Inr (t\<lparr>m_top := TOKEN_SIZE - 1\<rparr>)"
  using assms by (rule generate_huffman_no_counts)

theorem C9_witness:
  "generate_huffman (hide_node empty_table 3) = Inr (hide_node empty_table 3\<lparr>m_top := TOKEN_SIZE - 1\<rparr>)"
proof -
  have "\<forall>i<TOKEN_SIZE. m_count (hide_node empty_table 3) ! i = 0"
    by (simp add: hide_node_count empty_table_fields nth_list_update consts_defs)
  then show ?thesis by (rule C9_empty_table_returns)
qed

text \<open>The claim as stated fails: the empty table yields a tree, not an error.\<close>

theorem C9_counterexample:
  "generate_huffman empty_table = Inr (empty_table\<lparr>m_top := 255\<rparr>)"
proof -
  have "\<forall>i<TOKEN_SIZE. m_count empty_table ! i = 0"
    by (simp add: empty_table_count consts_defs)
  from generate_huffman_no_counts [OF this] show ?thesis by (simp add: TOKEN_SIZE_def)
qed

section \<open>C10: bits written to a stream and read back\<close>

text \<open>
  \<open>reads_back s vs\<close>: the values \<open>vs\<close> are written with \<open>stream_write_bit\<close>, the stream is
  reset, and as many \<open>stream_read_bit\<close> calls return \<open>vs\<close> again.
\<close>

definition reads_back :: "Stream \<Rightarrow> u8 list \<Rightarrow> bool" where
  "reads_back s vs =
     (case write_bits s vs of
        Inl f \<Rightarrow> False
      | Inr s1 \<Rightarrow>
          (case read_bits (stream_reset s1) (length vs) of
             Inl f \<Rightarrow> False
           | Inr (ws, s2) \<Rightarrow> ws = vs))"

lemma reads_back_bits:
  assumes "length (m_buffer s) = STREAM_BUFFER_BYTES" "m_offset_s s = 0"
    "length bs \<le> 8 * STREAM_BUFFER_BYTES"
  shows "reads_back s (map of_bool bs) =
           (map (\<lambda>p. of_bool (bit_at (m_buffer s) p \<or> bs ! p) :: u8) [0..<length bs] = map of_bool bs)"
  using write_reset_read [OF assms] by (simp add: reads_back_def)

lemma zero_stream_reads_back:
  assumes "length (m_buffer s) = STREAM_BUFFER_BYTES" "m_offset_s s = 0"
    "set (m_buffer s) \<subseteq> {0}" "set vs \<subseteq> {0, 1}" "length vs \<le> 8 * STREAM_BUFFER_BYTES"
  shows "reads_back s vs"
proof -
  define bs where "bs = map (\<lambda>v. v = 1) vs"
  have vs: "vs = map of_bool bs" using of_bool_bits [OF assms(4)] by (simp add: bs_def)
  have len: "length bs \<le> 8 * STREAM_BUFFER_BYTES" using assms(5) by (simp add: bs_def)
  have "map (\<lambda>p. of_bool (bit_at (m_buffer s) p \<or> bs ! p) :: u8) [0..<length bs] = map of_bool bs"
  proof (rule nth_equalityI)
    show "length (map (\<lambda>p. of_bool (bit_at (m_buffer s) p \<or> bs ! p) :: u8) [0..<length bs]) =
          length (map of_bool bs :: u8 list)" by simp
  next
    fix i assume "i < length (map (\<lambda>p. of_bool (bit_at (m_buffer s) p \<or> bs ! p) :: u8) [0..<length bs])"
    then have i: "i < length bs" by simp
    with len assms(1) have "i div 8 < length (m_buffer s)" by simp
    from zero_buffer_bit [OF assms(3) this] i
    show "map (\<lambda>p. of_bool (bit_at (m_buffer s) p \<or> bs ! p) :: u8) [0..<length bs] ! i =
          (map of_bool bs :: u8 list) ! i" by simp
  qed
  then show ?thesis unfolding vs using reads_back_bits [OF assms(1,2) len] by simp
qed

lemma stale_stream_fails:
  assumes "length (m_buffer s) = STREAM_BUFFER_BYTES" "m_offset_s s = 0"
    "\<not> set (m_buffer s) \<subseteq> {0}"
  shows "\<exists>vs. set vs \<subseteq> {0, 1} \<and> length vs \<le> 8 * STREAM_BUFFER_BYTES \<and> \<not> reads_back s vs"
proof -
  from nonzero_buffer_bit [OF assms(3)] obtain pos where
    pos: "pos < 8 * length (m_buffer s)" "bit_at (m_buffer s) pos" by blast
  define n where "n = Suc pos"
  define bs where "bs = replicate n False"
  have n: "pos < n" "n \<le> 8 * STREAM_BUFFER_BYTES" using pos(1) assms(1) by (simp_all add: n_def)
  have len: "length bs \<le> 8 * STREAM_BUFFER_BYTES" using n by (simp add: bs_def)
  have "map (\<lambda>p. of_bool (bit_at (m_buffer s) p \<or> bs ! p) :: u8) [0..<length bs] ! pos \<noteq>
        (map of_bool bs :: u8 list) ! pos"
    using pos(2) n(1) by (simp add: bs_def)
  then have "map (\<lambda>p. of_bool (bit_at (m_buffer s) p \<or> bs ! p) :: u8) [0..<length bs] \<noteq> map of_bool bs"
    by metis
  then have "\<not> reads_back s (map of_bool bs)"
    using reads_back_bits [OF assms(1,2) len] by simp
  moreover have "set (map of_bool bs :: u8 list) \<subseteq> {0, 1}" by (auto simp: bs_def)
  ultimately show ?thesis using len by (intro exI [of _ "map of_bool bs"]) simp
qed

lemma zero_stream_fields:
  "length (m_buffer zero_stream) = STREAM_BUFFER_BYTES" "m_offset_s zero_stream = 0"
  "set (m_buffer zero_stream) \<subseteq> {0}"
  by (auto simp: zero_stream_def)

text \<open>
  C10 (as amended). For a stream at offset 0, every sequence of at most
  \<open>8 * STREAM_BUFFER_BYTES\<close> (65536) bit values, written with \<open>stream_write_bit\<close>, reads back
  unchanged after \<open>stream_reset\<close> exactly when every byte of the buffer is zero at the
  start: a zero buffer guarantees it, and a buffer with any nonzero byte breaks it for
  some sequence.
\<close>

theorem C10_stream_round_trip:
  assumes "length (m_buffer s) = STREAM_BUFFER_BYTES" "m_offset_s s = 0"
  shows "(\<forall>vs. set vs \<subseteq> {0, 1} \<and> length vs \<le> 8 * STREAM_BUFFER_BYTES \<longrightarrow> reads_back s vs)
         = (set (m_buffer s) \<subseteq> {0})"
  using zero_stream_reads_back [OF assms] stale_stream_fails [OF assms] by blast

theorem C10_witness:
  "reads_back zero_stream [1, 0, 1, 1]"
proof -
  have "set [1, 0, 1, 1 :: u8] \<subseteq> {0, 1} \<and> length [1, 0, 1, 1 :: u8] \<le> 8 * STREAM_BUFFER_BYTES"
    by (simp add: STREAM_BUFFER_BYTES_def)
  with C10_stream_round_trip [OF zero_stream_fields(1,2)] zero_stream_fields(3)
  show ?thesis by blast
qed

text \<open>
  The claim as stated, for any number of bits, fails at the first bit past the buffer:
  the 65537th write is outside \<open>m_buffer\<close>.
\<close>

theorem C10_counterexample:
  "\<not> reads_back zero_stream (replicate (8 * STREAM_BUFFER_BYTES + 1) 0)"
proof -
  let ?n = "8 * STREAM_BUFFER_BYTES"
  have "replicate (?n + 1) (0 :: u8) = map of_bool (replicate ?n False) @ [0]"
    by (simp add: replicate_append_same)
  moreover have "write_bits zero_stream (map of_bool (replicate ?n False)) =
      Inr (append_bits zero_stream (replicate ?n False))"
    by (intro write_bits_ok) (simp add: zero_stream_fields)
  moreover have "stream_write_bit (append_bits zero_stream (replicate ?n False)) 0 = Inl OutOfBounds"
    by (intro stream_write_bit_full) (simp add: zero_stream_fields)
  ultimately have "write_bits zero_stream (replicate (?n + 1) 0) = Inl OutOfBounds"
    by (simp add: write_bits_append)
  then show ?thesis by (simp add: reads_back_def)
qed

section \<open>C4: what the decoder prints\<close>

text \<open>
  \<open>pair_tree\<close> is a tree with one inner node, 256, over the leaves of tokens 0 (left) and
  1 (right).
\<close>

definition pair_tree :: FreqTree where
  "pair_tree = empty_table\<lparr>m_left := (m_left empty_table)[256 := 0],
                           m_right := (m_right empty_table)[256 := 1], m_top := 256\<rparr>"

text \<open>
  \<open>inside t cur q\<close>: the nodes on the way from \<open>cur\<close> along the bits \<open>q\<close>, \<open>cur\<close> and the
  last one included, are indices of the arrays. \<open>reaches t q k\<close> is one full run of the
  \<open>do ... while\<close> of \<open>stream_decode\<close>: from \<open>m_top\<close> (read into a \<open>uint32_t\<close>) the bits \<open>q\<close>
  lead, inside the arrays, to the leaf \<open>k\<close> and to no leaf before.
\<close>

fun inside :: "FreqTree \<Rightarrow> nat \<Rightarrow> bool list \<Rightarrow> bool" where
  "inside t cur [] = (cur < FREQ_TREE_MAX_NODES)"
| "inside t cur (b # bs) = (cur < FREQ_TREE_MAX_NODES \<and> inside t (child t cur b) bs)"

definition reaches :: "FreqTree \<Rightarrow> bool list \<Rightarrow> nat \<Rightarrow> bool" where
  "reaches t q k \<longleftrightarrow>
     walk t (m_top t mod UINT32_MOD) q k \<and> inside t (m_top t mod UINT32_MOD) q"

lemma inside_start: "inside t cur q \<Longrightarrow> cur < FREQ_TREE_MAX_NODES"
  by (cases q) simp_all

lemma inside_descend:
  "inside t cur q \<Longrightarrow> n \<le> length q \<Longrightarrow> descend t cur (take n q) < FREQ_TREE_MAX_NODES"
proof (induction q arbitrary: cur n)
  case Nil
  then show ?case by simp
next
  case (Cons b q)
  show ?case
  proof (cases n)
    case 0
    with Cons.prems show ?thesis by simp
  next
    case (Suc m)
    with Cons.prems Cons.IH [of "child t cur b" m] show ?thesis by simp
  qed
qed

lemma decode_token_reads_walk:
  "decode_token s t cur = Inr (k, s') \<Longrightarrow>
   \<exists>q. walk t cur q k \<and> inside t cur q \<and> q = stream_bits s (length q) \<and>
       m_offset_s s + length q \<le> 8 * STREAM_BUFFER_BYTES \<and>
       s' = s\<lparr>m_offset_s := m_offset_s s + length q\<rparr>"
proof (induction s t cur arbitrary: k s' rule: decode_token.induct)
  case (1 s t cur)
  from "1.prems" obtain v s1 where rd: "stream_read_bit s = Inr (v, s1)"
    by (subst (asm) decode_token.simps) (auto split: sum.splits)
  then have inb: "m_offset_s s < 8 * STREAM_BUFFER_BYTES"
    by (auto simp: stream_read_bit_def split: if_splits)
  define b where "b = bit_at (m_buffer s) (m_offset_s s)"
  from rd stream_read_bit_ok [OF inb] have v: "v = of_bool b"
    and s1: "s1 = s\<lparr>m_offset_s := m_offset_s s + 1\<rparr>"
    by (simp_all add: b_def)
  define c where "c = (if v \<noteq> 0 then m_right t ! cur else m_left t ! cur) mod UINT32_MOD"
  have c: "c = child t cur b" by (simp add: c_def v child_def)
  from "1.prems" rd have
    in1: "\<not> FREQ_TREE_MAX_NODES \<le> cur" and in2: "\<not> FREQ_TREE_MAX_NODES \<le> c" and
    rest: "(if m_left t ! c \<noteq> INVALID_TOKEN then decode_token s1 t c else Inr (c, s1)) = Inr (k, s')"
    unfolding c_def
    by - (subst (asm) decode_token.simps, simp add: Let_def split: if_splits)+
  show ?case
  proof (cases "m_left t ! c \<noteq> INVALID_TOKEN")
    case True
    with rest have "decode_token s1 t c = Inr (k, s')" by simp
    from "1.IH" [OF rd refl in1 c_def in2 True this]
    obtain q where q: "walk t c q k" "inside t c q" "q = stream_bits s1 (length q)"
      "m_offset_s s1 + length q \<le> 8 * STREAM_BUFFER_BYTES"
      "s' = s1\<lparr>m_offset_s := m_offset_s s1 + length q\<rparr>"
      by blast
    from q(1) obtain b' bs where q': "q = b' # bs" by (cases q) auto
    have "walk t cur (b # q) k"
      using q(1) True by (simp add: q' c is_leaf_def)
    moreover have "inside t cur (b # q)" using q(2) in1 by (simp add: c)
    moreover have "b # q = stream_bits s (length (b # q))"
      using q(3) by (simp add: stream_bits_Suc b_def s1)
    moreover have "m_offset_s s + length (b # q) \<le> 8 * STREAM_BUFFER_BYTES"
      using q(4) by (simp add: s1)
    moreover have "s' = s\<lparr>m_offset_s := m_offset_s s + length (b # q)\<rparr>"
      using q(5) by (simp add: s1)
    ultimately show ?thesis by blast
  next
    case False
    with rest have k: "k = c" "s' = s1" by simp_all
    have "walk t cur [b] k" using False by (simp add: k c is_leaf_def)
    moreover have "inside t cur [b]" using in1 in2 by (simp add: c)
    moreover have "[b] = stream_bits s (length [b])"
      by (simp add: stream_bits_def b_def)
    moreover have "m_offset_s s + length [b] \<le> 8 * STREAM_BUFFER_BYTES" using inb by simp
    moreover have "s' = s\<lparr>m_offset_s := m_offset_s s + length [b]\<rparr>" by (simp add: k s1)
    ultimately show ?thesis by blast
  qed
qed

lemma decode_token_follows_walk:
  assumes "walk t cur q k" "inside t cur q" "q = stream_bits s (length q)"
    "m_offset_s s + length q \<le> 8 * STREAM_BUFFER_BYTES"
  shows "decode_token s t cur = Inr (k, s\<lparr>m_offset_s := m_offset_s s + length q\<rparr>)"
proof -
  have "\<forall>n. 0 < n \<and> n \<le> length q \<longrightarrow> descend t cur (take n q) < FREQ_TREE_MAX_NODES"
    using inside_descend [OF assms(2)] by simp
  from decode_token_complete [OF assms(1,3,4) inside_start [OF assms(2)] this] show ?thesis .
qed

lemma decode_token_fails_iff:
  "(decode_token s t (m_top t mod UINT32_MOD) = Inl f) =
     (\<not> (\<exists>q k. reaches t q k \<and> q = stream_bits s (length q) \<and>
               m_offset_s s + length q \<le> 8 * STREAM_BUFFER_BYTES))"
proof
  assume l: "decode_token s t (m_top t mod UINT32_MOD) = Inl f"
  show "\<not> (\<exists>q k. reaches t q k \<and> q = stream_bits s (length q) \<and>
               m_offset_s s + length q \<le> 8 * STREAM_BUFFER_BYTES)"
  proof
    assume "\<exists>q k. reaches t q k \<and> q = stream_bits s (length q) \<and>
               m_offset_s s + length q \<le> 8 * STREAM_BUFFER_BYTES"
    then obtain q k where "walk t (m_top t mod UINT32_MOD) q k" "inside t (m_top t mod UINT32_MOD) q"
      "q = stream_bits s (length q)" "m_offset_s s + length q \<le> 8 * STREAM_BUFFER_BYTES"
      by (auto simp: reaches_def)
    from decode_token_follows_walk [OF this] l show False by simp
  qed
next
  assume n: "\<not> (\<exists>q k. reaches t q k \<and> q = stream_bits s (length q) \<and>
               m_offset_s s + length q \<le> 8 * STREAM_BUFFER_BYTES)"
  show "decode_token s t (m_top t mod UINT32_MOD) = Inl f"
  proof (cases "decode_token s t (m_top t mod UINT32_MOD)")
    case (Inl f')
    then show ?thesis by (cases f, cases f') simp
  next
    case (Inr a)
    then obtain k s' where "decode_token s t (m_top t mod UINT32_MOD) = Inr (k, s')"
      by (cases a) auto
    from decode_token_reads_walk [OF this] n show ?thesis by (auto simp: reaches_def)
  qed
qed

text \<open>
  The outer loop, both ways: what a run has printed and how it ended, and that a stream
  holding such walks makes the run print their leaves.
\<close>

lemma stream_decode_loop_reads:
  "stream_decode_loop s t printed0 = (printed, r) \<Longrightarrow>
   \<exists>new paths. printed = printed0 @ new \<and>
      list_all2 (reaches t) paths new \<and>
      concat paths = stream_bits s (length (concat paths)) \<and>
      length (concat paths) \<le> 8 * STREAM_BUFFER_BYTES - m_offset_s s \<and>
      0 \<notin> set (butlast new) \<and>
      (case r of
         Inr s' \<Rightarrow> new \<noteq> [] \<and> last new = 0 \<and>
                   s' = s\<lparr>m_offset_s := m_offset_s s + length (concat paths)\<rparr>
       | Inl f \<Rightarrow> 0 \<notin> set new \<and>
                  decode_token (s\<lparr>m_offset_s := m_offset_s s + length (concat paths)\<rparr>) t
                    (m_top t mod UINT32_MOD) = Inl f)"
proof (induction s t printed0 arbitrary: printed r rule: stream_decode_loop.induct)
  case (1 s t printed0)
  let ?top = "m_top t mod UINT32_MOD"
  let ?cap = "8 * STREAM_BUFFER_BYTES"
  show ?case
  proof (cases "decode_token s t ?top")
    case (Inl f)
    with "1.prems" have "printed = printed0" "r = Inl f"
      by (subst (asm) stream_decode_loop.simps, simp)+
    with Inl show ?thesis
      by (intro exI [of _ "[]"]) (simp add: stream_bits_def)
  next
    case (Inr a)
    then obtain cur s1 where dt: "decode_token s t ?top = Inr (cur, s1)" by (cases a) auto
    from decode_token_reads_walk [OF this] obtain q where
      q: "reaches t q cur" "q = stream_bits s (length q)"
         "m_offset_s s + length q \<le> ?cap"
         "s1 = s\<lparr>m_offset_s := m_offset_s s + length q\<rparr>"
      by (auto simp: reaches_def)
    show ?thesis
    proof (cases "cur = 0")
      case True
      with "1.prems" dt have "printed = printed0 @ [0]" "r = Inr s1"
        by (subst (asm) stream_decode_loop.simps, simp)+
      then have p: "printed = printed0 @ [0]" and r: "r = Inr s1" by simp_all
      have l: "list_all2 (reaches t) [q] [0]" using q(1) True by simp
      have c: "concat [q] = stream_bits s (length (concat [q]))" using q(2) by simp
      have d: "length (concat [q]) \<le> ?cap - m_offset_s s" using q(3) by simp
      have b: "0 \<notin> set (butlast [0::nat])" by simp
      have e: "case r of Inr s' \<Rightarrow> [0::nat] \<noteq> [] \<and> last [0::nat] = 0 \<and>
                        s' = s\<lparr>m_offset_s := m_offset_s s + length (concat [q])\<rparr>
            | Inl f \<Rightarrow> 0 \<notin> set [0::nat] \<and>
                  decode_token (s\<lparr>m_offset_s := m_offset_s s + length (concat [q])\<rparr>) t ?top = Inl f"
        using q(4) by (simp add: r)
      from p l c d b e show ?thesis by blast
    next
      case False
      with "1.prems" dt have "stream_decode_loop s1 t (printed0 @ [cur]) = (printed, r)"
        by (subst (asm) stream_decode_loop.simps) simp
      from "1.IH" [OF dt refl False this] obtain new paths where
        n: "printed = (printed0 @ [cur]) @ new"
           "list_all2 (reaches t) paths new"
           "concat paths = stream_bits s1 (length (concat paths))"
           "length (concat paths) \<le> ?cap - m_offset_s s1"
           "0 \<notin> set (butlast new)"
           "case r of Inr s' \<Rightarrow> new \<noteq> [] \<and> last new = 0 \<and>
                        s' = s1\<lparr>m_offset_s := m_offset_s s1 + length (concat paths)\<rparr>
            | Inl f \<Rightarrow> 0 \<notin> set new \<and>
                  decode_token (s1\<lparr>m_offset_s := m_offset_s s1 + length (concat paths)\<rparr>) t ?top = Inl f"
        by blast
      have c: "concat (q # paths) = stream_bits s (length (concat (q # paths)))"
        using q(2) n(3) by (simp add: stream_bits_add q(4) [symmetric])
      have d: "length (concat (q # paths)) \<le> ?cap - m_offset_s s"
        using q(3) n(4) by (simp add: q(4))
      have b: "0 \<notin> set (butlast (cur # new))" using False n(5) by simp
      have l: "list_all2 (reaches t) (q # paths) (cur # new)" using q(1) n(2) by simp
      have e: "case r of Inr s' \<Rightarrow> cur # new \<noteq> [] \<and> last (cur # new) = 0 \<and>
                        s' = s\<lparr>m_offset_s := m_offset_s s + length (concat (q # paths))\<rparr>
            | Inl f \<Rightarrow> 0 \<notin> set (cur # new) \<and>
                  decode_token (s\<lparr>m_offset_s := m_offset_s s + length (concat (q # paths))\<rparr>) t ?top
                    = Inl f"
        using n(6) False by (cases r) (simp_all add: q(4) add.assoc)
      have p: "printed = printed0 @ (cur # new)" using n(1) by simp
      from p l c d b e show ?thesis by blast
    qed
  qed
qed

lemma decode_first_path:
  assumes "reaches t q k"
    "concat (q # paths) = stream_bits s (length (concat (q # paths)))"
    "length (concat (q # paths)) \<le> 8 * STREAM_BUFFER_BYTES - m_offset_s s"
  shows "decode_token s t (m_top t mod UINT32_MOD) =
           Inr (k, s\<lparr>m_offset_s := m_offset_s s + length q\<rparr>)"
    and "concat paths =
           stream_bits (s\<lparr>m_offset_s := m_offset_s s + length q\<rparr>) (length (concat paths))"
    and "length (concat paths) \<le> 8 * STREAM_BUFFER_BYTES - (m_offset_s s + length q)"
proof -
  let ?top = "m_top t mod UINT32_MOD"
  let ?s1 = "s\<lparr>m_offset_s := m_offset_s s + length q\<rparr>"
  let ?n = "length (concat paths)"
  from assms(1) have w: "walk t ?top q k" "inside t ?top q" by (simp_all add: reaches_def)
  then have ne: "q \<noteq> []" by (cases q) auto
  have split: "stream_bits s (length q + ?n) = stream_bits s (length q) @ stream_bits ?s1 ?n"
    by (rule stream_bits_add)
  from assms(2) split have eq: "q @ concat paths = stream_bits s (length q) @ stream_bits ?s1 ?n"
    by simp
  have "length q = length (stream_bits s (length q))" by (simp add: stream_bits_def)
  with eq have qb: "q = stream_bits s (length q)" and rest: "concat paths = stream_bits ?s1 ?n"
    by (simp_all add: append_eq_append_conv)
  have l: "length (concat (q # paths)) = length q + ?n" by simp
  from ne have p: "0 < length q" by simp
  from assms(3) l p have c1: "m_offset_s s + length q \<le> 8 * STREAM_BUFFER_BYTES"
    and c2: "?n \<le> 8 * STREAM_BUFFER_BYTES - (m_offset_s s + length q)"
    by arith+
  from decode_token_follows_walk [OF w qb c1]
  show "decode_token s t ?top = Inr (k, ?s1)" .
  from rest show "concat paths = stream_bits ?s1 ?n" .
  from c2 show "?n \<le> 8 * STREAM_BUFFER_BYTES - (m_offset_s s + length q)" .
qed

lemma stream_decode_loop_prints:
  assumes "list_all2 (reaches t) paths new"
    "concat paths = stream_bits s (length (concat paths))"
    "length (concat paths) \<le> 8 * STREAM_BUFFER_BYTES - m_offset_s s"
    "0 \<notin> set (butlast new)" "new \<noteq> []" "last new = 0"
  shows "stream_decode_loop s t printed0 =
           (printed0 @ new, Inr (s\<lparr>m_offset_s := m_offset_s s + length (concat paths)\<rparr>))"
  using assms
proof (induction paths new arbitrary: s printed0 rule: list_all2_induct)
  case Nil
  then show ?case by simp
next
  case (Cons q paths k new)
  let ?s1 = "s\<lparr>m_offset_s := m_offset_s s + length q\<rparr>"
  note f = decode_first_path [OF Cons.hyps(1) Cons.prems(1,2)]
  show ?case
  proof (cases "k = 0")
    case True
    with Cons.prems(3) have "new = []" by (cases new) auto
    with Cons.hyps(2) have "paths = []" by simp
    with f(1) True \<open>new = []\<close> show ?thesis by (subst stream_decode_loop.simps) simp
  next
    case False
    with Cons.prems(5) have n: "new \<noteq> []" "last new = 0" by (cases new; simp)+
    from Cons.prems(3) n have b: "0 \<notin> set (butlast new)" by simp
    have "stream_decode_loop ?s1 t (printed0 @ [k]) =
        ((printed0 @ [k]) @ new, Inr (?s1\<lparr>m_offset_s := m_offset_s ?s1 + length (concat paths)\<rparr>))"
      using f(2,3) b n by (intro Cons.IH) simp_all
    with f(1) False show ?thesis
      by (subst stream_decode_loop.simps) (simp add: add.assoc)
  qed
qed

lemma stream_decode_loop_runs_out:
  assumes "list_all2 (reaches t) paths new"
    "concat paths = stream_bits s (length (concat paths))"
    "length (concat paths) \<le> 8 * STREAM_BUFFER_BYTES - m_offset_s s"
    "0 \<notin> set new"
    "decode_token (s\<lparr>m_offset_s := m_offset_s s + length (concat paths)\<rparr>) t
       (m_top t mod UINT32_MOD) = Inl f"
  shows "stream_decode_loop s t printed0 = (printed0 @ new, Inl f)"
  using assms
proof (induction paths new arbitrary: s printed0 rule: list_all2_induct)
  case Nil
  then show ?case by (subst stream_decode_loop.simps) simp
next
  case (Cons q paths k new)
  let ?s1 = "s\<lparr>m_offset_s := m_offset_s s + length q\<rparr>"
  note f = decode_first_path [OF Cons.hyps(1) Cons.prems(1,2)]
  from Cons.prems(3) have k: "k \<noteq> 0" and n: "0 \<notin> set new" by auto
  from Cons.prems(4)
  have "decode_token (?s1\<lparr>m_offset_s := m_offset_s ?s1 + length (concat paths)\<rparr>) t
      (m_top t mod UINT32_MOD) = Inl f"
    by (simp add: add.assoc)
  then have "stream_decode_loop ?s1 t (printed0 @ [k]) = ((printed0 @ [k]) @ new, Inl f)"
    using f(2,3) n by (intro Cons.IH) simp_all
  with f(1) k show ?case by (subst stream_decode_loop.simps) simp
qed

text \<open>
  C4. \<open>stream_decode\<close> always ends, with a normal return (\<open>Inr\<close>) or by leaving the buffer
  or the arrays (\<open>Inl\<close>), and which of the two, with which tokens printed, is settled by
  the bits of the stream from its offset on. It returns having printed \<open>printed\<close> exactly
  when these bits, inside the buffer, are one walk after the other, each from the top
  node, left on bit 0 and right on bit 1, to the first leaf on the way, the leaves
  being the tokens of \<open>printed\<close> in order, the last of them 0 and none before it; the
  stream is then just past the bits read. It ends in a fault having printed \<open>printed\<close>
  exactly when the bits are such walks to the tokens of \<open>printed\<close>, none of them 0, and
  no further walk to a leaf fits the bits, the arrays and the buffer from there on.
\<close>

theorem C4_decode_walks_until_token_0:
  "(stream_decode s t = (printed, Inr s')) =
     (printed \<noteq> [] \<and> last printed = 0 \<and> 0 \<notin> set (butlast printed) \<and>
      (\<exists>paths. list_all2 (reaches t) paths printed \<and>
          concat paths = stream_bits s (length (concat paths)) \<and>
          length (concat paths) \<le> 8 * STREAM_BUFFER_BYTES - m_offset_s s \<and>
          s' = s\<lparr>m_offset_s := m_offset_s s + length (concat paths)\<rparr>)) \<and>
   (stream_decode s t = (printed, Inl f)) =
     (0 \<notin> set printed \<and>
      (\<exists>paths. list_all2 (reaches t) paths printed \<and>
          concat paths = stream_bits s (length (concat paths)) \<and>
          length (concat paths) \<le> 8 * STREAM_BUFFER_BYTES - m_offset_s s \<and>
          \<not> (\<exists>q k. reaches t q k \<and>
                q = stream_bits (s\<lparr>m_offset_s := m_offset_s s + length (concat paths)\<rparr>) (length q) \<and>
                m_offset_s s + length (concat paths) + length q \<le> 8 * STREAM_BUFFER_BYTES)))"
proof (rule conjI; rule iffI)
  assume "stream_decode s t = (printed, Inr s')"
  then have "stream_decode_loop s t [] = (printed, Inr s')" by (simp add: stream_decode_def)
  from stream_decode_loop_reads [OF this]
  show "printed \<noteq> [] \<and> last printed = 0 \<and> 0 \<notin> set (butlast printed) \<and>
      (\<exists>paths. list_all2 (reaches t) paths printed \<and>
          concat paths = stream_bits s (length (concat paths)) \<and>
          length (concat paths) \<le> 8 * STREAM_BUFFER_BYTES - m_offset_s s \<and>
          s' = s\<lparr>m_offset_s := m_offset_s s + length (concat paths)\<rparr>)"
    by auto
next
  assume "printed \<noteq> [] \<and> last printed = 0 \<and> 0 \<notin> set (butlast printed) \<and>
      (\<exists>paths. list_all2 (reaches t) paths printed \<and>
          concat paths = stream_bits s (length (concat paths)) \<and>
          length (concat paths) \<le> 8 * STREAM_BUFFER_BYTES - m_offset_s s \<and>
          s' = s\<lparr>m_offset_s := m_offset_s s + length (concat paths)\<rparr>)"
  then obtain paths where p: "printed \<noteq> []" "last printed = 0" "0 \<notin> set (butlast printed)"
    "list_all2 (reaches t) paths printed" "concat paths = stream_bits s (length (concat paths))"
    "length (concat paths) \<le> 8 * STREAM_BUFFER_BYTES - m_offset_s s"
    "s' = s\<lparr>m_offset_s := m_offset_s s + length (concat paths)\<rparr>"
    by blast
  from stream_decode_loop_prints [OF p(4,5,6,3,1,2), of "[]"] p(7)
  show "stream_decode s t = (printed, Inr s')" by (simp add: stream_decode_def)
next
  assume "stream_decode s t = (printed, Inl f)"
  then have "stream_decode_loop s t [] = (printed, Inl f)" by (simp add: stream_decode_def)
  from stream_decode_loop_reads [OF this] obtain paths where
    p: "list_all2 (reaches t) paths printed" "concat paths = stream_bits s (length (concat paths))"
      "length (concat paths) \<le> 8 * STREAM_BUFFER_BYTES - m_offset_s s" "0 \<notin> set printed"
      "decode_token (s\<lparr>m_offset_s := m_offset_s s + length (concat paths)\<rparr>) t
         (m_top t mod UINT32_MOD) = Inl f"
    by auto
  from p(5) have "\<not> (\<exists>q k. reaches t q k \<and>
      q = stream_bits (s\<lparr>m_offset_s := m_offset_s s + length (concat paths)\<rparr>) (length q) \<and>
      m_offset_s s + length (concat paths) + length q \<le> 8 * STREAM_BUFFER_BYTES)"
    by (simp add: decode_token_fails_iff)
  with p(1-4) show "0 \<notin> set printed \<and>
      (\<exists>paths. list_all2 (reaches t) paths printed \<and>
          concat paths = stream_bits s (length (concat paths)) \<and>
          length (concat paths) \<le> 8 * STREAM_BUFFER_BYTES - m_offset_s s \<and>
          \<not> (\<exists>q k. reaches t q k \<and>
                q = stream_bits (s\<lparr>m_offset_s := m_offset_s s + length (concat paths)\<rparr>) (length q) \<and>
                m_offset_s s + length (concat paths) + length q \<le> 8 * STREAM_BUFFER_BYTES))"
    by blast
next
  assume "0 \<notin> set printed \<and>
      (\<exists>paths. list_all2 (reaches t) paths printed \<and>
          concat paths = stream_bits s (length (concat paths)) \<and>
          length (concat paths) \<le> 8 * STREAM_BUFFER_BYTES - m_offset_s s \<and>
          \<not> (\<exists>q k. reaches t q k \<and>
                q = stream_bits (s\<lparr>m_offset_s := m_offset_s s + length (concat paths)\<rparr>) (length q) \<and>
                m_offset_s s + length (concat paths) + length q \<le> 8 * STREAM_BUFFER_BYTES))"
  then obtain paths where p: "0 \<notin> set printed"
    "list_all2 (reaches t) paths printed" "concat paths = stream_bits s (length (concat paths))"
    "length (concat paths) \<le> 8 * STREAM_BUFFER_BYTES - m_offset_s s"
    "\<not> (\<exists>q k. reaches t q k \<and>
          q = stream_bits (s\<lparr>m_offset_s := m_offset_s s + length (concat paths)\<rparr>) (length q) \<and>
          m_offset_s s + length (concat paths) + length q \<le> 8 * STREAM_BUFFER_BYTES)"
    by blast
  from p(5) have "decode_token (s\<lparr>m_offset_s := m_offset_s s + length (concat paths)\<rparr>) t
      (m_top t mod UINT32_MOD) = Inl f"
    by (simp add: decode_token_fails_iff)
  from stream_decode_loop_runs_out [OF p(2,3,4,1) this, of "[]"]
  show "stream_decode s t = (printed, Inl f)" by (simp add: stream_decode_def)
qed

text \<open>
  A run that prints two tokens: the stream holds the bits 1 and 0, and in \<open>pair_tree\<close> the
  right leaf is token 1 and the left leaf token 0.
\<close>

definition two_bit_stream :: Stream where
  "two_bit_stream = stream_reset (append_bits zero_stream [True, False])"

lemma two_bit_stream_bits:
  "m_offset_s two_bit_stream = 0" "stream_bits two_bit_stream 2 = [True, False]"
proof -
  show o: "m_offset_s two_bit_stream = 0" by (simp add: two_bit_stream_def stream_reset_def)
  have fit: "m_offset_s zero_stream + length [True, False] \<le> 8 * length (m_buffer zero_stream)"
    by (simp add: zero_stream_fields STREAM_BUFFER_BYTES_def)
  have z: "\<not> bit_at (m_buffer zero_stream) 0" "\<not> bit_at (m_buffer zero_stream) 1"
    by (rule zero_buffer_bit; simp add: zero_stream_fields STREAM_BUFFER_BYTES_def)+
  have b: "m_buffer two_bit_stream = m_buffer (append_bits zero_stream [True, False])"
    by (simp add: two_bit_stream_def stream_reset_def)
  have "bit_at (m_buffer two_bit_stream) 0" "\<not> bit_at (m_buffer two_bit_stream) 1"
    unfolding b bit_at_append_bits [OF fit] using z by (simp_all add: zero_stream_fields)
  moreover have "[0..<2] = [0, 1 :: nat]" by (simp add: upt_rec)
  ultimately show "stream_bits two_bit_stream 2 = [True, False]"
    by (simp add: stream_bits_def o)
qed

theorem C4_witness:
  "stream_decode two_bit_stream pair_tree = ([1, 0], Inr (two_bit_stream\<lparr>m_offset_s := 2\<rparr>))"
proof -
  have r: "reaches pair_tree [True] 1" "reaches pair_tree [False] 0"
    by (simp_all add: reaches_def pair_tree_def is_leaf_def child_def empty_table_fields consts_defs)
  have b: "stream_bits two_bit_stream (Suc (Suc 0)) = [True, False]"
    using two_bit_stream_bits(2) by (simp only: numeral_2_eq_2)
  have "[1, 0 :: nat] \<noteq> [] \<and> last [1, 0 :: nat] = 0 \<and> 0 \<notin> set (butlast [1, 0 :: nat]) \<and>
      (\<exists>paths. list_all2 (reaches pair_tree) paths [1, 0] \<and>
          concat paths = stream_bits two_bit_stream (length (concat paths)) \<and>
          length (concat paths) \<le> 8 * STREAM_BUFFER_BYTES - m_offset_s two_bit_stream \<and>
          two_bit_stream\<lparr>m_offset_s := 2\<rparr> =
            two_bit_stream\<lparr>m_offset_s := m_offset_s two_bit_stream + length (concat paths)\<rparr>)"
    using r by (intro conjI exI [of _ "[[True], [False]]"])
      (simp_all add: b two_bit_stream_bits(1) STREAM_BUFFER_BYTES_def)
  with C4_decode_walks_until_token_0 [where s = two_bit_stream and t = pair_tree
      and printed = "[1, 0]" and s' = "two_bit_stream\<lparr>m_offset_s := 2\<rparr>"]
  show ?thesis by blast
qed

section \<open>C1: encoding and decoding the data of main\<close>

text \<open>
  \<open>encoded_size\<close> is the number of bits \<open>stream_encode\<close> has to write for \<open>pData\<close>: the sum
  of the code lengths that the table built from \<open>pData\<close> gives its bytes.
\<close>

definition encoded_size :: "bool \<Rightarrow> FreqTree \<Rightarrow> EncodedTable \<Rightarrow> u8 list \<Rightarrow> nat" where
  "encoded_size char_signed tree enc pData =
     (case main_tables char_signed tree enc pData of
        Some (Inr (t, enc', total_bitcount)) \<Rightarrow> sum_list (map (\<lambda>c. m_bitcount enc' ! unat c) pData)
      | _ \<Rightarrow> 0)"

lemma main_run_to_first_zero:
  assumes "length (m_packedData enc) = MAX_ENCODING_TABLE_BYTES" "set (m_packedData enc) \<subseteq> {0}"
    "length (m_buffer encodedStream) = STREAM_BUFFER_BYTES" "set (m_buffer encodedStream) \<subseteq> {0}"
    "char_signed \<longrightarrow> (\<forall>c\<in>set pData. unat c < 128)" "length pData < UINT32_MOD"
    "2 \<le> card (set pData)" "0 \<in> set pData"
    "encoded_size char_signed tree enc pData \<le> 8 * STREAM_BUFFER_BYTES"
  shows "main_run char_signed tree enc encodedStream pData =
           Some (Inr (takeWhile (\<lambda>k. k \<noteq> 0) (map unat pData) @ [0]))"
proof -
  from main_tables_built [OF assms(5-7), of tree enc] obtain t tr where
    mt: "main_tables char_signed tree enc pData =
           Some (Inr (t, built_table enc tr, total_bits (leaf_codes tr [])))"
    and tr: "m_left t ! m_top t \<noteq> INVALID_TOKEN" "tree_at (m_left t) (m_right t) (m_top t) tr"
      "distinct (leaves tr)" "set (leaves tr) = unat ` set pData"
    by blast
  have "\<And>c :: u8. unat c < TOKEN_SIZE"
    using unsigned_less [where ?'a = nat and ?'b = 8] by (simp add: TOKEN_SIZE_def)
  then have sub: "set (leaves tr) \<subseteq> {..<TOKEN_SIZE}" by (auto simp: tr(4))
  have fits: "sum_list (map (\<lambda>c. m_bitcount (built_table enc tr) ! unat c) pData)
      \<le> 8 * STREAM_BUFFER_BYTES"
    using assms(9) by (simp add: encoded_size_def mt)
  from encode_decode [OF tr(2,3) sub tr(1) assms(1-4) _ assms(8,6) fits] tr(4)
  obtain s1 s2 where
    "stream_encode (stream_reset encodedStream) pData (built_table enc tr) = Inr s1"
    "stream_decode (stream_reset s1) t = (takeWhile (\<lambda>k. k \<noteq> 0) (map unat pData) @ [0], Inr s2)"
    by auto
  then show ?thesis by (simp add: main_run_def mt)
qed

text \<open>A code has at most 255 bits, so data of up to 257 bytes always fits the stream.\<close>

lemma sum_list_le_times:
  "(\<And>x. x \<in> set xs \<Longrightarrow> f x \<le> (c :: nat)) \<Longrightarrow> sum_list (map f xs) \<le> c * length xs"
proof (induction xs)
  case Nil
  then show ?case by simp
next
  case (Cons x xs)
  then have "f x \<le> c" "sum_list (map f xs) \<le> c * length xs" by simp_all
  then show ?case by simp
qed

lemma encoded_size_bound:
  assumes "char_signed \<longrightarrow> (\<forall>c\<in>set pData. unat c < 128)" "length pData < UINT32_MOD"
    "2 \<le> card (set pData)"
  shows "encoded_size char_signed tree enc pData \<le> 255 * length pData"
proof -
  from main_tables_built [OF assms, of tree enc] obtain t tr where
    mt: "main_tables char_signed tree enc pData =
           Some (Inr (t, built_table enc tr, total_bits (leaf_codes tr [])))"
    and tr: "distinct (leaves tr)" "set (leaves tr) = unat ` set pData"
    by blast
  have "\<And>c :: u8. unat c < TOKEN_SIZE"
    using unsigned_less [where ?'a = nat and ?'b = 8] by (simp add: TOKEN_SIZE_def)
  then have sub: "set (leaves tr) \<subseteq> {..<TOKEN_SIZE}" by (auto simp: tr(2))
  have "m_bitcount (built_table enc tr) ! unat c \<le> 255" if "c \<in> set pData" for c
  proof -
    from that tr(2) have "unat c \<in> set (leaves tr)" by auto
    then have "unat c \<in> fst ` set (leaf_codes tr [])" by (metis map_fst_leaf_codes set_map)
    then obtain q where q: "(unat c, q) \<in> set (leaf_codes tr [])" by force
    from code_length_bound [OF q] leaves_count [OF tr(1) sub]
    have "length q \<le> 255" by (simp add: TOKEN_SIZE_def)
    with built_table_bitcount(1) [OF tr(1) sub q] show ?thesis by simp
  qed
  then have "sum_list (map (\<lambda>c. m_bitcount (built_table enc tr) ! unat c) pData) \<le> 255 * length pData"
    by (rule sum_list_le_times)
  then show ?thesis by (simp add: encoded_size_def mt)
qed

text \<open>
  C1 (as amended). Let the table and the stream of \<open>main\<close> start as zero-filled memory,
  and let the data have at least two distinct byte values, a zero byte among them,
  fewer than \<open>2^32\<close> bytes, only bytes below 0x80 where \<open>char\<close> is signed, and codes that
  fit the 65536 bits of the stream. Then \<open>main\<close> runs to its end, and what
  \<open>stream_decode\<close> prints is the data up to and including its first zero byte: the
  data itself exactly when its only zero byte is the last one.
\<close>

theorem C1_round_trip_to_first_zero:
  assumes "length (m_packedData enc) = MAX_ENCODING_TABLE_BYTES" "set (m_packedData enc) \<subseteq> {0}"
    "length (m_buffer encodedStream) = STREAM_BUFFER_BYTES" "set (m_buffer encodedStream) \<subseteq> {0}"
    "char_signed \<longrightarrow> (\<forall>c\<in>set pData. unat c < 128)" "length pData < UINT32_MOD"
    "2 \<le> card (set pData)" "0 \<in> set pData"
    "encoded_size char_signed tree enc pData \<le> 8 * STREAM_BUFFER_BYTES"
  shows "main_run char_signed tree enc encodedStream pData =
           Some (Inr (takeWhile (\<lambda>k. k \<noteq> 0) (map unat pData) @ [0]))"
  using assms by (rule main_run_to_first_zero)

lemma zero_table_fields:
  "length (m_packedData zero_table) = MAX_ENCODING_TABLE_BYTES" "set (m_packedData zero_table) \<subseteq> {0}"
  by (auto simp: zero_table_def)

lemma two_bytes_fit:
  assumes "a \<noteq> b"
  shows "encoded_size False tree enc [a, b] \<le> 8 * STREAM_BUFFER_BYTES"
proof -
  have "encoded_size False tree enc [a, b] \<le> 255 * length [a, b]"
    using assms by (intro encoded_size_bound) (simp_all add: UINT32_MOD_def)
  then show ?thesis by (simp add: STREAM_BUFFER_BYTES_def)
qed

theorem C1_witness:
  "main_run False empty_table zero_table zero_stream [1, 0] = Some (Inr [1, 0])"
proof -
  have "2 \<le> card (set [1, 0 :: u8])" "length [1, 0 :: u8] < UINT32_MOD"
    by (simp_all add: UINT32_MOD_def)
  from C1_round_trip_to_first_zero [where char_signed = False and tree = empty_table,
      OF zero_table_fields zero_stream_fields(1,3) _ this(2,1) _ two_bytes_fit]
  show ?thesis by simp
qed

text \<open>
  The claim as stated fails on data with a zero byte before the end: the decoder stops
  at the first token 0, so the bytes 0, 1 come back as the single token 0.
\<close>

theorem C1_counterexample:
  "main_run False empty_table zero_table zero_stream [0, 1] = Some (Inr [0]) \<and>
   [0] \<noteq> map unat [0, 1 :: u8]"
proof -
  have "2 \<le> card (set [0, 1 :: u8])" "length [0, 1 :: u8] < UINT32_MOD"
    by (simp_all add: UINT32_MOD_def)
  from main_run_to_first_zero [where char_signed = False and tree = empty_table,
      OF zero_table_fields zero_stream_fields(1,3) _ this(2,1) _ two_bytes_fit]
  show ?thesis by simp
qed

section \<open>Frequency tables used as examples\<close>

text \<open>
  \<open>freq_table kvs\<close> is the tree after \<open>freq_tree_init\<close> with the counts \<open>kvs\<close> (token and
  count) in \<open>m_count\<close>, as \<open>freq_tree_accumulate\<close> leaves it for data with these
  frequencies.
\<close>

definition freq_table :: "(nat \<times> nat) list \<Rightarrow> FreqTree" where
  "freq_table kvs =
     empty_table\<lparr>m_count := map (\<lambda>j. case map_of kvs j of Some v \<Rightarrow> v | None \<Rightarrow> 0)
                               [0..<FREQ_TREE_MAX_NODES]\<rparr>"

lemma freq_table_fresh:
  assumes "\<forall>(k, v)\<in>set kvs. k < TOKEN_SIZE"
  shows "fresh_tree (freq_table kvs)"
proof -
  have "map_of kvs i = None" if "TOKEN_SIZE \<le> i" for i
  proof -
    from assms that have "i \<notin> fst ` set kvs" by force
    then show ?thesis by (simp add: map_of_eq_None_iff)
  qed
  then show ?thesis
    by (simp add: fresh_tree_def tree_shape_def freq_table_def empty_table_fields)
qed

lemma freq_table_counts:
  assumes "distinct (map fst kvs)" "\<forall>(k, v)\<in>set kvs. k < TOKEN_SIZE \<and> v \<noteq> 0"
  shows "counts_are (freq_table kvs) kvs"
proof -
  have c: "m_count (freq_table kvs) ! j = (case map_of kvs j of Some v \<Rightarrow> v | None \<Rightarrow> 0)"
    if "j < TOKEN_SIZE" for j
    using that by (simp add: freq_table_def consts_defs)
  have "\<forall>(k, v)\<in>set kvs. k < TOKEN_SIZE \<and> v \<noteq> 0 \<and> m_count (freq_table kvs) ! k = v"
    using assms by (auto simp: c)
  moreover have "\<forall>j<TOKEN_SIZE. j \<notin> fst ` set kvs \<longrightarrow> m_count (freq_table kvs) ! j = 0"
    by (simp add: c map_of_eq_None_iff [THEN iffD2])
  ultimately show ?thesis using assms(1) by (simp add: counts_are_def)
qed

text \<open>
  The tables of a frequency table, from the run of \<open>merge_all\<close> on its entries.
\<close>

lemma freq_table_tables:
  assumes "distinct (map fst kvs)" "\<forall>(k, v)\<in>set kvs. k < TOKEN_SIZE \<and> v \<noteq> 0"
    "sum_list (map snd kvs) < INVALID_TOKEN"
    "merge_all (leaf_forest kvs) TOKEN_SIZE = ([(i, v, tr)], Suc i)"
    "distinct (leaves tr)" "set (leaves tr) \<subseteq> {..<TOKEN_SIZE}"
  shows "\<exists>t. huffman_tables enc (freq_table kvs) =
             Some (Inr (t, built_table enc tr, total_bits (leaf_codes tr []))) \<and>
           m_top t = i \<and> tree_at (m_left t) (m_right t) i tr"
proof -
  have "fresh_tree (freq_table kvs)" using assms(2) by (intro freq_table_fresh) auto
  from huffman_tables_merge_all [OF this freq_table_counts [OF assms(1,2)] assms(3-6)]
  show ?thesis .
qed

lemmas merge_eval =
  merge_all.simps leaf_forest_def without_def before_def SIZE_MOD_def TOKEN_SIZE_def

text \<open>
  The table of the textbook example: \<open>a\<close> to \<open>f\<close> (97 to 102) with the counts 5, 9, 12, 13,
  16 and 45. Its five merges give node 260 as the top, over \<open>textbook_tree\<close>.
\<close>

definition textbook :: "(nat \<times> nat) list" where
  "textbook = [(97, 5), (98, 9), (99, 12), (100, 13), (101, 16), (102, 45)]"

definition textbook_tree :: htree where
  "textbook_tree =
     Node (Leaf 102) (Node (Node (Leaf 99) (Leaf 100)) (Node (Node (Leaf 97) (Leaf 98)) (Leaf 101)))"

lemma textbook_merge:
  "merge_all (leaf_forest textbook) TOKEN_SIZE = ([(260, 100, textbook_tree)], Suc 260)"
  by (simp add: textbook_def textbook_tree_def merge_eval)

lemma textbook_tables:
  "\<exists>t. huffman_tables enc (freq_table textbook) = Some (Inr (t, built_table enc textbook_tree, 18)) \<and>
       m_top t = 260 \<and> tree_at (m_left t) (m_right t) 260 textbook_tree"
proof -
  have "\<exists>t. huffman_tables enc (freq_table textbook) =
             Some (Inr (t, built_table enc textbook_tree, total_bits (leaf_codes textbook_tree []))) \<and>
           m_top t = 260 \<and> tree_at (m_left t) (m_right t) 260 textbook_tree"
    by (rule freq_table_tables [OF _ _ _ textbook_merge])
       (simp_all add: textbook_def textbook_tree_def consts_defs)
  moreover have "total_bits (leaf_codes textbook_tree []) = 18"
    by (simp add: textbook_tree_def eval_nat_numeral)
  ultimately show ?thesis by (simp only:)
qed

lemma textbook_lengths:
  "m_bitcount (built_table enc textbook_tree) ! 97 = 4"
  "m_bitcount (built_table enc textbook_tree) ! 98 = 4"
  "m_bitcount (built_table enc textbook_tree) ! 99 = 3"
  "m_bitcount (built_table enc textbook_tree) ! 100 = 3"
  "m_bitcount (built_table enc textbook_tree) ! 101 = 3"
  "m_bitcount (built_table enc textbook_tree) ! 102 = 1"
proof -
  have d: "distinct (leaves textbook_tree)" "set (leaves textbook_tree) \<subseteq> {..<TOKEN_SIZE}"
    by (simp_all add: textbook_tree_def TOKEN_SIZE_def)
  have m: "(97, [True, True, False, False]) \<in> set (leaf_codes textbook_tree [])"
    "(98, [True, True, False, True]) \<in> set (leaf_codes textbook_tree [])"
    "(99, [True, False, False]) \<in> set (leaf_codes textbook_tree [])"
    "(100, [True, False, True]) \<in> set (leaf_codes textbook_tree [])"
    "(101, [True, True, True]) \<in> set (leaf_codes textbook_tree [])"
    "(102, [False]) \<in> set (leaf_codes textbook_tree [])"
    by (simp_all add: textbook_tree_def)
  show "m_bitcount (built_table enc textbook_tree) ! 97 = 4"
    using built_table_bitcount(1) [OF d m(1)] by simp
  show "m_bitcount (built_table enc textbook_tree) ! 98 = 4"
    using built_table_bitcount(1) [OF d m(2)] by simp
  show "m_bitcount (built_table enc textbook_tree) ! 99 = 3"
    using built_table_bitcount(1) [OF d m(3)] by simp
  show "m_bitcount (built_table enc textbook_tree) ! 100 = 3"
    using built_table_bitcount(1) [OF d m(4)] by simp
  show "m_bitcount (built_table enc textbook_tree) ! 101 = 3"
    using built_table_bitcount(1) [OF d m(5)] by simp
  show "m_bitcount (built_table enc textbook_tree) ! 102 = 1"
    using built_table_bitcount(1) [OF d m(6)] by simp
qed

section \<open>C6: the textbook example\<close>

text \<open>
  C6. From the frequency table \<open>textbook\<close> (\<open>a\<close>: 5, \<open>b\<close>: 9, \<open>c\<close>: 12, \<open>d\<close>: 13, \<open>e\<close>: 16,
  \<open>f\<close>: 45, the tokens 97 to 102), whatever the table's memory holds before,
  \<open>generate_huffman\<close> and \<open>create_encodings\<close> return, and the code lengths in \<open>m_bitcount\<close>
  are 1 for \<open>f\<close>, 3 for \<open>c\<close>, \<open>d\<close> and \<open>e\<close>, 4 for \<open>a\<close> and \<open>b\<close>; the sum of code length
  times frequency is 224.
\<close>

theorem C6_textbook_code_lengths:
  "\<exists>t enc' total_bitcount.
     huffman_tables enc (freq_table textbook) = Some (Inr (t, enc', total_bitcount)) \<and>
     m_bitcount enc' ! 102 = 1 \<and> m_bitcount enc' ! 99 = 3 \<and> m_bitcount enc' ! 100 = 3 \<and>
     m_bitcount enc' ! 97 = 4 \<and> m_bitcount enc' ! 98 = 4 \<and> m_bitcount enc' ! 101 = 3 \<and>
     sum_list (map (\<lambda>(k, v). m_bitcount enc' ! k * v) textbook) = 224"
proof -
  from textbook_tables [of enc] obtain t where
    "huffman_tables enc (freq_table textbook) = Some (Inr (t, built_table enc textbook_tree, 18))"
    by blast
  moreover have "sum_list (map (\<lambda>(k, v). m_bitcount (built_table enc textbook_tree) ! k * v) textbook) = 224"
    by (simp add: textbook_def textbook_lengths)
  ultimately show ?thesis using textbook_lengths [of enc] by blast
qed

theorem C6_witness:
  "\<exists>t enc' total_bitcount.
     huffman_tables zero_table (freq_table textbook) = Some (Inr (t, enc', total_bitcount)) \<and>
     m_bitcount enc' ! 102 = 1 \<and> m_bitcount enc' ! 99 = 3 \<and> m_bitcount enc' ! 100 = 3 \<and>
     m_bitcount enc' ! 97 = 4 \<and> m_bitcount enc' ! 98 = 4 \<and> m_bitcount enc' ! 101 = 3 \<and>
     sum_list (map (\<lambda>(k, v). m_bitcount enc' ! k * v) textbook) = 224"
  by (rule C6_textbook_code_lengths)

section \<open>C5: the total that create_encodings prints\<close>






section \<open>C3: ties in the minimum scan\<close>

lemma scan_picks_lowest_minimum:
  assumes "n \<le> FREQ_TREE_MAX_NODES" "i < n" "visible t i"
  shows "get_smallest_huffman t n < n \<and> visible t (get_smallest_huffman t n) \<and>
         (\<forall>j<n. visible t j \<longrightarrow> m_count t ! get_smallest_huffman t n \<le> m_count t ! j) \<and>
         (\<forall>j<get_smallest_huffman t n. visible t j \<longrightarrow>
              m_count t ! get_smallest_huffman t n < m_count t ! j)"
proof -
  have n: "n \<le> INVALID_TOKEN" using assms(1) max_nodes_le_invalid by simp
  have "get_smallest_huffman t n \<noteq> INVALID_TOKEN"
    using assms(2,3) by (auto simp: get_smallest_huffman_none [OF n])
  then show ?thesis by (rule get_smallest_huffman_some [OF n])
qed

lemma three_counts_first_merge:
  assumes "fresh_tree t" "counts_are t [(A, 2), (B, 2), (C, 3)]" "A < B"
  shows "get_smallest_huffman t TOKEN_SIZE = A \<and>
         get_smallest_huffman (hide_node t A) TOKEN_SIZE = B \<and>
         generate_huffman_loop t TOKEN_SIZE =
           generate_huffman_loop (combine_nodes (hide_node (hide_node t A) B) TOKEN_SIZE 2 2 A B)
             (TOKEN_SIZE + 1) \<and>
         (\<exists>t'. generate_huffman t = Inr t' \<and> m_top t' = 257 \<and>
               tree_at (m_left t') (m_right t') 257 (Node (Leaf C) (Node (Leaf A) (Leaf B))))"
proof -
  let ?kvs = "[(A, 2), (B, 2), (C, 3 :: nat)]"
  let ?F = "leaf_forest ?kvs"
  from assms(2) have ne: "A \<noteq> B" "A \<noteq> C" "B \<noteq> C" and lt: "A < 256" "B < 256" "C < 256"
    and cnt: "m_count t ! A = 2" "m_count t ! B = 2"
    by (auto simp: counts_are_def TOKEN_SIZE_def)
  have F: "forest_of t TOKEN_SIZE ?F" by (rule fresh_forest [OF assms(1,2)])
  have w: "weight ?F < INVALID_TOKEN" by (simp add: weight_def leaf_forest_def consts_defs)
  have s1: "smallest ?F = Some (A, 2, Leaf A)"
    using assms(3) by (simp add: leaf_forest_def before_def)
  from smallest_scan [OF F w] s1 have ga: "get_smallest_huffman t TOKEN_SIZE = A" by simp
  have F1: "forest_of (hide_node t A) TOKEN_SIZE (without A ?F)" by (rule forest_hide [OF F])
  have wo: "without A ?F = [(B, 2, Leaf B), (C, 3, Leaf C)]"
    using ne by (simp add: leaf_forest_def without_def)
  have w1: "weight (without A ?F) < INVALID_TOKEN" by (simp add: wo weight_def consts_defs)
  have s2: "smallest (without A ?F) = Some (B, 2, Leaf B)" by (simp add: wo before_def)
  from smallest_scan [OF F1 w1] s2 have gb: "get_smallest_huffman (hide_node t A) TOKEN_SIZE = B"
    by simp
  have inv: "A \<noteq> INVALID_TOKEN" "B \<noteq> INVALID_TOKEN" using lt by (simp_all add: consts_defs)
  have cb: "m_count (hide_node t A) ! B = 2" using cnt(2) ne(1) by (simp add: hide_node_count)
  have step: "generate_huffman_loop t TOKEN_SIZE =
      generate_huffman_loop (combine_nodes (hide_node (hide_node t A) B) TOKEN_SIZE 2 2 A B)
        (TOKEN_SIZE + 1)"
    using generate_huffman_loop_step [OF ga inv(1) gb inv(2)]
    by (simp add: cnt(1) cb consts_defs)
  have "merge_all ?F TOKEN_SIZE = ([(257, 7, Node (Leaf C) (Node (Leaf A) (Leaf B)))], Suc 257)"
    using ne lt assms(3) by (simp add: merge_eval)
  moreover have "sum_list (map snd ?kvs) < INVALID_TOKEN" by (simp add: consts_defs)
  ultimately obtain t' where "generate_huffman t = Inr t'" "m_top t' = 257"
    "tree_at (m_left t') (m_right t') 257 (Node (Leaf C) (Node (Leaf A) (Leaf B)))"
    using generate_huffman_merge_all [OF assms(1,2)] by blast
  with ga gb step show ?thesis by blast
qed

text \<open>
  C3 (as amended). \<open>visible t j\<close> says that the count of node \<open>j\<close> is neither 0 nor
  \<open>INVALID_TOKEN\<close>, the value \<open>small_val\<close> starts from and that the strict comparison never
  lets in. When a scan over at most \<open>FREQ_TREE_MAX_NODES\<close> nodes has such a node in range,
  it returns the node of lowest index among those of minimum count: no node in range has
  a smaller count, and every node before it has a larger one. In particular, for the
  counts 2, 2 and 3 on tokens \<open>A < B\<close> and \<open>C\<close>, the two scans of the first iteration return
  \<open>A\<close> and \<open>B\<close>, the iteration makes node 256 of them, and the finished tree has \<open>C\<close> and that
  node below its top.
\<close>

theorem C3_lowest_index_among_minimal:
  "(n \<le> FREQ_TREE_MAX_NODES \<and> i < n \<and> visible t i \<longrightarrow>
      get_smallest_huffman t n < n \<and> visible t (get_smallest_huffman t n) \<and>
      (\<forall>j<n. visible t j \<longrightarrow> m_count t ! get_smallest_huffman t n \<le> m_count t ! j) \<and>
      (\<forall>j<get_smallest_huffman t n. visible t j \<longrightarrow>
           m_count t ! get_smallest_huffman t n < m_count t ! j)) \<and>
   (fresh_tree u \<and> counts_are u [(A, 2), (B, 2), (C, 3)] \<and> A < B \<longrightarrow>
      get_smallest_huffman u TOKEN_SIZE = A \<and>
      get_smallest_huffman (hide_node u A) TOKEN_SIZE = B \<and>
      generate_huffman_loop u TOKEN_SIZE =
        generate_huffman_loop (combine_nodes (hide_node (hide_node u A) B) TOKEN_SIZE 2 2 A B)
          (TOKEN_SIZE + 1) \<and>
      (\<exists>t'. generate_huffman u = Inr t' \<and> m_top t' = 257 \<and>
            tree_at (m_left t') (m_right t') 257 (Node (Leaf C) (Node (Leaf A) (Leaf B)))))"
  using scan_picks_lowest_minimum [of n i t] three_counts_first_merge [of u A B C] by blast

lemma tie_table:
  "fresh_tree (freq_table [(3, 2), (7, 2), (9, 3)])"
  "counts_are (freq_table [(3, 2), (7, 2), (9, 3)]) [(3, 2), (7, 2), (9, 3)]"
  "visible (freq_table [(3, 2), (7, 2), (9, 3)]) 3"
proof -
  show "fresh_tree (freq_table [(3, 2), (7, 2), (9, 3)])"
    by (rule freq_table_fresh) (simp add: TOKEN_SIZE_def)
  show c: "counts_are (freq_table [(3, 2), (7, 2), (9, 3)]) [(3, 2), (7, 2), (9, 3)]"
    by (rule freq_table_counts) (simp_all add: TOKEN_SIZE_def)
  then have "m_count (freq_table [(3, 2), (7, 2), (9, 3)]) ! 3 = 2" by (simp add: counts_are_def)
  then show "visible (freq_table [(3, 2), (7, 2), (9, 3)]) 3"
    by (simp add: visible_def consts_defs)
qed

theorem C3_witness:
  "get_smallest_huffman (freq_table [(3, 2), (7, 2), (9, 3)]) TOKEN_SIZE = 3 \<and>
   get_smallest_huffman (hide_node (freq_table [(3, 2), (7, 2), (9, 3)]) 3) TOKEN_SIZE = 7 \<and>
   visible (freq_table [(3, 2), (7, 2), (9, 3)])
     (get_smallest_huffman (freq_table [(3, 2), (7, 2), (9, 3)]) TOKEN_SIZE)"
proof -
  have "TOKEN_SIZE \<le> FREQ_TREE_MAX_NODES \<and> 3 < TOKEN_SIZE" by (simp add: consts_defs)
  with C3_lowest_index_among_minimal [of TOKEN_SIZE 3 "freq_table [(3, 2), (7, 2), (9, 3)]"
      "freq_table [(3, 2), (7, 2), (9, 3)]" 3 7 9] tie_table
  show ?thesis by simp
qed

text \<open>
  The claim as stated fails for a count equal to \<open>INVALID_TOKEN\<close> (\<open>SIZE_MAX\<close>): nodes 3 and
  7 share it as the minimum nonzero count, and the scan returns neither but \<open>INVALID_TOKEN\<close>,
  its value for an empty table.
\<close>

theorem C3_counterexample:
  "m_count (freq_table [(3, INVALID_TOKEN), (7, INVALID_TOKEN)]) ! 3 = INVALID_TOKEN \<and>
   m_count (freq_table [(3, INVALID_TOKEN), (7, INVALID_TOKEN)]) ! 7 = INVALID_TOKEN \<and>
   get_smallest_huffman (freq_table [(3, INVALID_TOKEN), (7, INVALID_TOKEN)]) TOKEN_SIZE
     = INVALID_TOKEN"
proof -
  let ?t = "freq_table [(3, INVALID_TOKEN), (7, INVALID_TOKEN)]"
  have c: "\<And>j. j < TOKEN_SIZE \<Longrightarrow>
      m_count ?t ! j = (if j = 3 \<or> j = 7 then INVALID_TOKEN else 0)"
    by (simp add: freq_table_def TOKEN_SIZE_def FREQ_TREE_MAX_NODES_def)
  have "TOKEN_SIZE \<le> INVALID_TOKEN" by (simp add: consts_defs)
  then have "get_smallest_huffman ?t TOKEN_SIZE = INVALID_TOKEN"
    by (simp add: get_smallest_huffman_none visible_def c)
  moreover have "m_count ?t ! 3 = INVALID_TOKEN" "m_count ?t ! 7 = INVALID_TOKEN"
    by (simp_all add: c TOKEN_SIZE_def)
  ultimately show ?thesis by simp
qed

section \<open>C8: the node that becomes the top\<close>

text \<open>
  \<open>loop_state t0 t n\<close>: the \<open>while\<close> loop of \<open>generate_huffman\<close>, started on the tree \<open>t0\<close>,
  is at its head with the tree \<open>t\<close> and \<open>new_index = n\<close>.
\<close>

inductive loop_state :: "FreqTree \<Rightarrow> FreqTree \<Rightarrow> nat \<Rightarrow> bool" for t0 where
  start: "loop_state t0 t0 TOKEN_SIZE"
| step: "loop_state t0 t n \<Longrightarrow> get_smallest_huffman t n = a \<Longrightarrow> a \<noteq> INVALID_TOKEN \<Longrightarrow>
         get_smallest_huffman (hide_node t a) n = b \<Longrightarrow> b \<noteq> INVALID_TOKEN \<Longrightarrow>
         n < FREQ_TREE_MAX_NODES \<Longrightarrow>
         loop_state t0
           (combine_nodes (hide_node (hide_node t a) b) n (m_count t ! a)
              (m_count (hide_node t a) ! b) a b) (Suc n)"

code_pred loop_state .

lemma loop_state_run:
  "loop_state t0 t n \<Longrightarrow> generate_huffman_loop t0 TOKEN_SIZE = generate_huffman_loop t n"
proof (induction rule: loop_state.induct)
  case start
  show ?case by simp
next
  case (step t n a b)
  from generate_huffman_loop_step [OF step.hyps(2-6)] step.IH show ?case by simp
qed

lemma loop_state_inv:
  assumes "fresh_tree t0" "sum_list (m_count t0) < INVALID_TOKEN"
  shows "loop_state t0 t n \<Longrightarrow> gh_inv t n \<and> gh_cover t n (tokens_counted t0)"
proof (induction rule: loop_state.induct)
  case start
  show ?case using fresh_tree_inv [OF assms(1)] fresh_tree_cover [OF assms] by simp
next
  case (step t n a b)
  from step.IH have inv: "gh_inv t n" and cov: "gh_cover t n (tokens_counted t0)" by simp_all
  then have sh: "tree_shape t" and n: "n \<le> FREQ_TREE_MAX_NODES" by (simp_all add: gh_inv_def)
  from scans_found [OF sh n step.hyps(2-5)]
  have ab: "a < n" "b < n" "a \<noteq> b" and vis: "visible t a" "visible t b"
    and cb: "m_count (hide_node t a) ! b = m_count t ! b" by simp_all
  from vis have nz: "m_count t ! a \<noteq> 0" "m_count t ! b \<noteq> 0" by (simp_all add: visible_def)
  from gh_inv_step [OF inv ab nz] gh_cover_step [OF inv cov ab nz]
  show ?case by (simp add: cb)
qed

lemma break_at_second_scan:
  assumes "fresh_tree t0" "sum_list (m_count t0) < INVALID_TOKEN" "loop_state t0 t n"
    "get_smallest_huffman t n = a" "a \<noteq> INVALID_TOKEN"
    "get_smallest_huffman (hide_node t a) n = INVALID_TOKEN"
  shows "generate_huffman t0 = Inr ((hide_node t a)\<lparr>m_top := n - 1\<rparr>) \<and>
         (a = n - 1) = (TOKEN_SIZE < n \<or> a = TOKEN_SIZE - 1)"
proof -
  from loop_state_inv [OF assms(1-3)]
  have inv: "gh_inv t n" and cov: "gh_cover t n (tokens_counted t0)" by simp_all
  have "generate_huffman_loop t0 TOKEN_SIZE = Inr (hide_node t a, n)"
    using loop_state_run [OF assms(3)] generate_huffman_loop_stop2 [OF assms(4-6)] by simp
  then have g: "generate_huffman t0 = Inr ((hide_node t a)\<lparr>m_top := n - 1\<rparr>)"
    by (simp add: generate_huffman_def)
  have "(a = n - 1) = (TOKEN_SIZE < n \<or> a = TOKEN_SIZE - 1)"
  proof (cases "TOKEN_SIZE < n")
    case True
    with last_scan_is_last_node [OF inv cov True assms(4-6)] show ?thesis by simp
  next
    case False
    with inv have "n = TOKEN_SIZE" by (simp add: gh_inv_def)
    with False show ?thesis by simp
  qed
  with g show ?thesis by simp
qed

text \<open>Two tables: one token used, and two tokens used (with the tree after their merge).\<close>

definition single_table :: FreqTree where
  "single_table = freq_table [(65, 3)]"

definition two_table :: FreqTree where
  "two_table = freq_table [(0, 1), (1, 1)]"

definition two_merged :: FreqTree where
  "two_merged = combine_nodes (hide_node (hide_node two_table 0) 1) 256 1 1 0 1"

lemma single_table_scans:
  "get_smallest_huffman single_table TOKEN_SIZE = 65"
  "get_smallest_huffman (hide_node single_table 65) TOKEN_SIZE = INVALID_TOKEN"
proof -
  let ?kvs = "[(65, 3 :: nat)]"
  have fr: "fresh_tree single_table"
    unfolding single_table_def by (rule freq_table_fresh) (simp add: TOKEN_SIZE_def)
  have ca: "counts_are single_table ?kvs"
    unfolding single_table_def by (rule freq_table_counts) (simp_all add: TOKEN_SIZE_def)
  have F: "forest_of single_table TOKEN_SIZE (leaf_forest ?kvs)" by (rule fresh_forest [OF fr ca])
  have w: "weight (leaf_forest ?kvs) < INVALID_TOKEN"
    by (simp add: weight_def leaf_forest_def consts_defs)
  from smallest_scan [OF F w] show "get_smallest_huffman single_table TOKEN_SIZE = 65"
    by (simp add: leaf_forest_def)
  have w1: "weight (without 65 (leaf_forest ?kvs)) < INVALID_TOKEN"
    by (simp add: weight_def leaf_forest_def without_def consts_defs)
  from smallest_scan [OF forest_hide [OF F] w1]
  show "get_smallest_huffman (hide_node single_table 65) TOKEN_SIZE = INVALID_TOKEN"
    by (simp add: leaf_forest_def without_def)
qed

lemma two_table_fresh: "fresh_tree two_table" "sum_list (m_count two_table) < INVALID_TOKEN"
proof -
  show "fresh_tree two_table"
    unfolding two_table_def by (rule freq_table_fresh) (simp add: TOKEN_SIZE_def)
  have "m_count two_table = 1 # 1 # replicate 509 0"
    by (rule nth_equalityI)
       (auto simp: two_table_def freq_table_def FREQ_TREE_MAX_NODES_def TOKEN_SIZE_def
          nth_Cons split: nat.splits)
  then show "sum_list (m_count two_table) < INVALID_TOKEN" by (simp add: consts_defs)
qed

lemma two_table_run:
  "loop_state two_table two_merged 257"
  "get_smallest_huffman two_merged 257 = 256"
  "get_smallest_huffman (hide_node two_merged 256) 257 = INVALID_TOKEN"
proof -
  let ?kvs = "[(0, 1), (1, 1 :: nat)]"
  let ?F = "leaf_forest ?kvs"
  let ?t2 = "hide_node (hide_node two_table 0) 1"
  have ca: "counts_are two_table ?kvs"
    unfolding two_table_def by (rule freq_table_counts) (simp_all add: TOKEN_SIZE_def)
  then have cnt: "m_count two_table ! 0 = 1" "m_count two_table ! 1 = 1"
    by (simp_all add: counts_are_def)
  have F: "forest_of two_table TOKEN_SIZE ?F" by (rule fresh_forest [OF two_table_fresh(1) ca])
  have w: "weight ?F < INVALID_TOKEN" by (simp add: weight_def leaf_forest_def consts_defs)
  from smallest_scan [OF F w] have ga: "get_smallest_huffman two_table TOKEN_SIZE = 0"
    by (simp add: leaf_forest_def before_def)
  have F1: "forest_of (hide_node two_table 0) TOKEN_SIZE (without 0 ?F)" by (rule forest_hide [OF F])
  have w1: "weight (without 0 ?F) < INVALID_TOKEN"
    by (simp add: weight_def leaf_forest_def without_def consts_defs)
  from smallest_scan [OF F1 w1] have gb: "get_smallest_huffman (hide_node two_table 0) TOKEN_SIZE = 1"
    by (simp add: leaf_forest_def without_def)
  have cb: "m_count (hide_node two_table 0) ! 1 = 1" using cnt(2) by (simp add: hide_node_count)
  have "loop_state two_table
      (combine_nodes ?t2 TOKEN_SIZE (m_count two_table ! 0) (m_count (hide_node two_table 0) ! 1) 0 1)
      (Suc TOKEN_SIZE)"
    by (rule loop_state.step [OF loop_state.start ga _ gb]) (simp_all add: consts_defs)
  then show ls: "loop_state two_table two_merged 257"
    by (simp only: two_merged_def cnt(1) cb TOKEN_SIZE_def) simp
  have F2: "forest_of ?t2 TOKEN_SIZE (without 1 (without 0 ?F))" by (rule forest_hide [OF F1])
  have lv: "tree_at (m_left ?t2) (m_right ?t2) 0 (Leaf 0)" "tree_at (m_left ?t2) (m_right ?t2) 1 (Leaf 1)"
    using two_table_fresh(1)
    by (auto intro!: tree_at.leaf simp: fresh_tree_def consts_defs)
  have "forest_of (combine_nodes ?t2 TOKEN_SIZE 1 1 0 1) (Suc TOKEN_SIZE)
      ((TOKEN_SIZE, (1 + 1) mod SIZE_MOD, Node (Leaf 0) (Leaf 1)) # without 1 (without 0 ?F))"
    by (rule forest_combine [OF F2 _ _ _ lv]) (simp_all add: consts_defs)
  moreover have "(1 + 1) mod SIZE_MOD = (2 :: nat)" by (simp add: SIZE_MOD_def)
  ultimately have Fm: "forest_of two_merged 257 [(256, 2, Node (Leaf 0) (Leaf 1))]"
    by (simp only:) (simp add: two_merged_def leaf_forest_def without_def TOKEN_SIZE_def)
  have wm: "weight [(256, 2, Node (Leaf 0) (Leaf 1))] < INVALID_TOKEN"
    by (simp add: weight_def consts_defs)
  from smallest_scan [OF Fm wm] show "get_smallest_huffman two_merged 257 = 256" by simp
  have wh: "weight (without 256 [(256, 2, Node (Leaf 0) (Leaf 1))]) < INVALID_TOKEN"
    by (simp add: weight_def without_def consts_defs)
  from smallest_scan [OF forest_hide [OF Fm] wh]
  show "get_smallest_huffman (hide_node two_merged 256) 257 = INVALID_TOKEN"
    by (simp add: without_def)
qed

text \<open>
  C8 (as amended). Let the loop of \<open>generate_huffman\<close>, started on a tree as
  \<open>freq_tree_init\<close> and \<open>freq_tree_accumulate\<close> leave it (counts summing to less than
  \<open>SIZE_MAX\<close>), be in an iteration whose first scan finds node \<open>a\<close> and whose second scan
  finds none. Then the loop ends there and \<open>m_top\<close> becomes \<open>new_index - 1\<close>. That is the
  node \<open>a\<close> exactly when a merge has happened before (\<open>a\<close> is then the last node created),
  or when \<open>a\<close> is token 255: with a single symbol in the table, \<open>m_top\<close> is 255 whichever
  leaf is left.
\<close>

theorem C8_top_after_last_scan:
  assumes "fresh_tree t0" "sum_list (m_count t0) < INVALID_TOKEN" "loop_state t0 t n"
    "get_smallest_huffman t n = a" "a \<noteq> INVALID_TOKEN"
    "get_smallest_huffman (hide_node t a) n = INVALID_TOKEN"
  shows "generate_huffman t0 = Inr ((hide_node t a)\<lparr>m_top := n - 1\<rparr>) \<and>
         (a = n - 1) = (TOKEN_SIZE < n \<or> a = TOKEN_SIZE - 1)"
  using assms by (rule break_at_second_scan)

theorem C8_witness:
  "generate_huffman two_table = Inr ((hide_node two_merged 256)\<lparr>m_top := 256\<rparr>)"
proof -
  have "(256 :: nat) \<noteq> INVALID_TOKEN" by (simp add: consts_defs)
  from C8_top_after_last_scan [OF two_table_fresh two_table_run(1,2) this two_table_run(3)]
  show ?thesis by simp
qed

text \<open>
  The claim as stated fails for a table with one symbol: the first scan finds token 65,
  the second finds nothing, and \<open>m_top\<close> is 255, not the surviving leaf 65.
\<close>

theorem C8_counterexample:
  "get_smallest_huffman single_table TOKEN_SIZE = 65 \<and>
   get_smallest_huffman (hide_node single_table 65) TOKEN_SIZE = INVALID_TOKEN \<and>
   generate_huffman single_table = Inr ((hide_node single_table 65)\<lparr>m_top := 255\<rparr>)"
proof -
  have "(65 :: nat) \<noteq> INVALID_TOKEN" by (simp add: consts_defs)
  from generate_huffman_loop_stop2 [OF single_table_scans(1) this single_table_scans(2)]
  have "generate_huffman single_table = Inr ((hide_node single_table 65)\<lparr>m_top := 255\<rparr>)"
    by (simp add: generate_huffman_def TOKEN_SIZE_def)
  with single_table_scans show ?thesis by simp
qed

section \<open>C2 and C7: codes in a table that is not zero at the start\<close>

text \<open>
  \<open>encoded_table_init\<close> leaves \<open>m_packedData\<close> as it is, and \<open>set_encoded_bit\<close> only ORs into
  it. In \<open>stale_table\<close> every bit of the packed data is set before \<open>create_encodings\<close> runs,
  so every code reads back as a run of 1 bits.
\<close>

lemma stale_table_bit:
  "pos < 8 * MAX_ENCODING_TABLE_BYTES \<Longrightarrow> bit_at (m_packedData stale_table) pos"
proof -
  assume "pos < 8 * MAX_ENCODING_TABLE_BYTES"
  then have "pos div 8 < MAX_ENCODING_TABLE_BYTES" by simp
  then have "m_packedData stale_table ! (pos div 8) = 255" by (simp add: stale_table_def)
  moreover have "(255 :: u8) = - 1" by simp
  ultimately show ?thesis by (simp add: bit_at_def)
qed

lemma stale_table_code_bits:
  assumes "distinct (leaves tr)" "set (leaves tr) \<subseteq> {..<TOKEN_SIZE}" "(k, q) \<in> set (leaf_codes tr [])"
  shows "code_bits (built_table stale_table tr) k = replicate (length q) True"
proof -
  let ?cs = "leaf_codes tr []"
  have d: "distinct (map fst ?cs)" using assms(1) by simp
  have len: "length (m_packedData stale_table) = MAX_ENCODING_TABLE_BYTES"
    by (simp add: stale_table_def)
  have "bit_at (m_packedData stale_table) (code_start ?cs k + j)" if "j < length q" for j
  proof -
    from code_range [OF d assms(3)] table_holds_codes'(1) [OF assms(1,2)] that
    have "code_start ?cs k + j < 8 * MAX_ENCODING_TABLE_BYTES" by simp
    then show ?thesis by (rule stale_table_bit)
  qed
  then show ?thesis
    unfolding built_table_code_bits [OF assms len]
    by (intro nth_equalityI) simp_all
qed

text \<open>With packed data that is zero at the start, the codes are the paths, and prefix-free.\<close>

lemma leaf_codes_extend: "(k, q) \<in> set (leaf_codes tr p) \<Longrightarrow> \<exists>r. q = p @ r"
proof (induction tr arbitrary: p)
  case (Leaf k')
  then show ?case by simp
next
  case (Node l r)
  from Node.prems consider "(k, q) \<in> set (leaf_codes l (p @ [False]))"
    | "(k, q) \<in> set (leaf_codes r (p @ [True]))" by auto
  then show ?case
  proof cases
    case 1
    from Node.IH(1) [OF this] show ?thesis by auto
  next
    case 2
    from Node.IH(2) [OF this] show ?thesis by auto
  qed
qed

lemma leaf_codes_prefix_free:
  "(k, q) \<in> set (leaf_codes tr p) \<Longrightarrow> (k', q') \<in> set (leaf_codes tr p) \<Longrightarrow>
   q' = q @ r \<Longrightarrow> (k, q) = (k', q')"
proof (induction tr arbitrary: p)
  case (Leaf j)
  then show ?case by simp
next
  case (Node l1 l2)
  from Node.prems(1) consider (l) "(k, q) \<in> set (leaf_codes l1 (p @ [False]))"
    | (r) "(k, q) \<in> set (leaf_codes l2 (p @ [True]))" by auto
  then show ?case
  proof cases
    case l
    from Node.prems(2) consider (l') "(k', q') \<in> set (leaf_codes l1 (p @ [False]))"
      | (r') "(k', q') \<in> set (leaf_codes l2 (p @ [True]))" by auto
    then show ?thesis
    proof cases
      case l'
      from Node.IH(1) [OF l l' Node.prems(3)] show ?thesis .
    next
      case r'
      from leaf_codes_extend [OF l] leaf_codes_extend [OF r'] Node.prems(3)
      show ?thesis by auto
    qed
  next
    case r
    from Node.prems(2) consider (l') "(k', q') \<in> set (leaf_codes l1 (p @ [False]))"
      | (r') "(k', q') \<in> set (leaf_codes l2 (p @ [True]))" by auto
    then show ?thesis
    proof cases
      case l'
      from leaf_codes_extend [OF r] leaf_codes_extend [OF l'] Node.prems(3)
      show ?thesis by auto
    next
      case r'
      from Node.IH(2) [OF r r' Node.prems(3)] show ?thesis .
    qed
  qed
qed

lemma zero_table_codes:
  assumes "tree_at (m_left t) (m_right t) (m_top t) tr" "distinct (leaves tr)"
    "set (leaves tr) \<subseteq> {..<TOKEN_SIZE}"
    "length (m_packedData enc) = MAX_ENCODING_TABLE_BYTES" "set (m_packedData enc) \<subseteq> {0}"
    "k \<in> set (leaves tr)"
  shows "path_to t (m_top t) (code_bits (built_table enc tr) k) k"
    and "k' \<in> set (leaves tr) \<Longrightarrow> k' \<noteq> k \<Longrightarrow>
         code_bits (built_table enc tr) k' \<noteq> code_bits (built_table enc tr) k @ r"
proof -
  let ?cs = "leaf_codes tr []"
  have z: "\<forall>b\<in>set (m_packedData enc). b = 0" using assms(5) by auto
  have ex: "\<exists>q. (j, q) \<in> set ?cs" if "j \<in> set (leaves tr)" for j
  proof -
    from that have "j \<in> fst ` set ?cs" by (metis map_fst_leaf_codes set_map)
    then show ?thesis by force
  qed
  from ex [OF assms(6)] obtain q where q: "(k, q) \<in> set ?cs" by blast
  have cq: "code_bits (built_table enc tr) k = q"
    by (rule built_table_code_bits_zero [OF assms(2,3) q assms(4) z])
  from tree_paths [OF assms(1) q] show "path_to t (m_top t) (code_bits (built_table enc tr) k) k"
    by (simp add: cq)
  assume k': "k' \<in> set (leaves tr)" "k' \<noteq> k"
  from ex [OF k'(1)] obtain q' where q': "(k', q') \<in> set ?cs" by blast
  have cq': "code_bits (built_table enc tr) k' = q'"
    by (rule built_table_code_bits_zero [OF assms(2,3) q' assms(4) z])
  from leaf_codes_prefix_free [OF q q'] k'(2)
  show "code_bits (built_table enc tr) k' \<noteq> code_bits (built_table enc tr) k @ r"
    by (auto simp: cq cq')
qed

text \<open>
  C2, at a table the code can receive. For the counts 1 and 2 on the tokens 65 and 66 the
  path from the top to leaf 65 is the single bit 0, and in \<open>stale_table\<close> the range of
  token 65 (one bit) reads 1.
\<close>

theorem C2_stale_table_code:
  "case huffman_tables stale_table (freq_table [(65, 1), (66, 2)]) of
     Some (Inr (t, enc', total_bitcount)) \<Rightarrow>
       path_to t (m_top t) [False] 65 \<and> m_bitcount enc' ! 65 = 1 \<and> code_bits enc' 65 = [True]
   | _ \<Rightarrow> False"
proof -
  let ?tr = "Node (Leaf 65) (Leaf 66)"
  have d: "distinct (leaves ?tr)" "set (leaves ?tr) \<subseteq> {..<TOKEN_SIZE}"
    by (simp_all add: TOKEN_SIZE_def)
  have m: "(65, [False]) \<in> set (leaf_codes ?tr [])" by simp
  have "merge_all (leaf_forest [(65, 1), (66, 2)]) TOKEN_SIZE = ([(256, 3, ?tr)], Suc 256)"
    by (simp add: merge_eval)
  from freq_table_tables [OF _ _ _ this d, of stale_table] obtain t where
    t: "huffman_tables stale_table (freq_table [(65, 1), (66, 2)]) =
          Some (Inr (t, built_table stale_table ?tr, total_bits (leaf_codes ?tr [])))"
      "m_top t = 256" "tree_at (m_left t) (m_right t) 256 ?tr"
    by (auto simp: consts_defs)
  from tree_paths [OF t(3) m] have "path_to t (m_top t) [False] 65" by (simp add: t(2))
  moreover have "m_bitcount (built_table stale_table ?tr) ! 65 = 1"
    using built_table_bitcount(1) [OF d m] by simp
  moreover have "code_bits (built_table stale_table ?tr) 65 = [True]"
    using stale_table_code_bits [OF d m] by simp
  ultimately show ?thesis unfolding t(1) by simp
qed

text \<open>
  C7, at a table the code can receive. For the counts 1, 1 and 2 on the tokens 1, 2 and 3
  the codes have the lengths 2, 2 and 1, and in \<open>stale_table\<close> they read 11, 11 and 1:
  the code of token 3 is a prefix of the code of token 1.
\<close>

theorem C7_stale_table_prefix:
  "case huffman_tables stale_table (freq_table [(1, 1), (2, 1), (3, 2)]) of
     Some (Inr (t, enc', total_bitcount)) \<Rightarrow>
       m_bitcount enc' ! 3 = 1 \<and> m_bitcount enc' ! 1 = 2 \<and>
       code_bits enc' 3 = [True] \<and> code_bits enc' 1 = [True, True] \<and>
       code_bits enc' 1 = code_bits enc' 3 @ [True]
   | _ \<Rightarrow> False"
proof -
  let ?tr = "Node (Leaf 3) (Node (Leaf 1) (Leaf 2))"
  have d: "distinct (leaves ?tr)" "set (leaves ?tr) \<subseteq> {..<TOKEN_SIZE}"
    by (simp_all add: TOKEN_SIZE_def)
  have m: "(3, [False]) \<in> set (leaf_codes ?tr [])" "(1, [True, False]) \<in> set (leaf_codes ?tr [])"
    by simp_all
  have "merge_all (leaf_forest [(1, 1), (2, 1), (3, 2)]) TOKEN_SIZE = ([(257, 4, ?tr)], Suc 257)"
    by (simp add: merge_eval)
  from freq_table_tables [OF _ _ _ this d, of stale_table] obtain t where
    t: "huffman_tables stale_table (freq_table [(1, 1), (2, 1), (3, 2)]) =
          Some (Inr (t, built_table stale_table ?tr, total_bits (leaf_codes ?tr [])))"
    by (auto simp: consts_defs)
  have "m_bitcount (built_table stale_table ?tr) ! 3 = 1"
    "m_bitcount (built_table stale_table ?tr) ! 1 = 2"
    using built_table_bitcount(1) [OF d m(1)] built_table_bitcount(1) [OF d m(2)] by simp_all
  moreover have "code_bits (built_table stale_table ?tr) 3 = [True]"
    "code_bits (built_table stale_table ?tr) 1 = [True, True]"
    using stale_table_code_bits [OF d m(1)] stale_table_code_bits [OF d m(2)]
    by (simp_all add: numeral_2_eq_2)
  ultimately show ?thesis unfolding t by simp
qed

end
